theory Spec2Isabelle
  imports Complex_Main "HOL-Library.Word" "HOL-Library.Log_Nat" "HOL-Library.Multiset"
begin

unbundle bit_operations_syntax

section \<open>JavaScript numbers\<close>

text \<open>
  Every number of the program is an IEEE 754 binary64 value. A finite value is
  kept as the rational it denotes; \<open>Fin 0\<close> is the positive zero and \<open>NZero\<close>
  the negative one. All NaNs are one value.
\<close>

datatype double = NaN | PInf | NInf | NZero | Fin rat

fun sign_bit :: "double \<Rightarrow> bool" where
  "sign_bit NaN = False"
| "sign_bit PInf = False"
| "sign_bit NInf = True"
| "sign_bit NZero = True"
| "sign_bit (Fin q) = (q < 0)"

fun mag :: "double \<Rightarrow> rat" where
  "mag (Fin q) = \<bar>q\<bar>"
| "mag _ = 0"

fun val :: "double \<Rightarrow> rat" where
  "val (Fin q) = q"
| "val _ = 0"

fun is_inf :: "double \<Rightarrow> bool" where
  "is_inf PInf = True"
| "is_inf NInf = True"
| "is_inf _ = False"

fun is_zero :: "double \<Rightarrow> bool" where
  "is_zero NZero = True"
| "is_zero (Fin q) = (q = 0)"
| "is_zero _ = False"

definition mk_zero :: "bool \<Rightarrow> double" where
  "mk_zero s = (if s then NZero else Fin 0)"

definition mk_inf :: "bool \<Rightarrow> double" where
  "mk_inf s = (if s then NInf else PInf)"

text \<open>Rounding a rational to the nearest integer, ties to the even one.\<close>

definition rne :: "rat \<Rightarrow> int" where
  "rne x = (let f = \<lfloor>x\<rfloor>; d = x - of_int f
            in if d < 1 / 2 then f else if 1 / 2 < d then f + 1
               else if even f then f else f + 1)"

text \<open>
  The finite binary64 magnitudes are the multiples \<open>m * 2 ^ sh\<close> of
  \<open>2 ^ - 1074\<close> with \<open>m < 2 ^ 53\<close> that lie below \<open>2 ^ 1024\<close>.
\<close>

definition subnormal_scale :: rat where
  "subnormal_scale = 2 ^ 1074"

definition overflow_bound :: rat where
  "overflow_bound = 2 ^ 1024"

text \<open>
  Rounding a magnitude \<open>a \<ge> 0\<close> with sign \<open>s\<close> to binary64, to nearest, ties to
  even. The magnitude is counted in units of \<open>2 ^ - 1074\<close>; \<open>sh\<close> is the
  number of low bits to drop so that 53 remain: 0 in the subnormal range and
  in the lowest normal binade, one more with each binade above. A result of
  \<open>2 ^ 1024\<close> or more is an infinity; a result of 0 keeps the sign.
\<close>

definition fround :: "bool \<Rightarrow> rat \<Rightarrow> double" where
  "fround s a =
     (let sh = nat (bitlen \<lfloor>a * subnormal_scale\<rfloor> - 53);
          m = rne (a * subnormal_scale / 2 ^ sh);
          v = of_int m * 2 ^ sh / subnormal_scale
      in if overflow_bound \<le> v then mk_inf s
         else if m = 0 then mk_zero s
         else Fin (if s then - v else v))"

text \<open>A well-formed number: a finite value is one that rounding leaves alone.\<close>

definition is_double :: "double \<Rightarrow> bool" where
  "is_double x = (case x of Fin q \<Rightarrow> fround (q < 0) \<bar>q\<bar> = Fin q | _ \<Rightarrow> True)"

text \<open>Unary minus.\<close>

fun fneg :: "double \<Rightarrow> double" where
  "fneg NaN = NaN"
| "fneg PInf = NInf"
| "fneg NInf = PInf"
| "fneg NZero = Fin 0"
| "fneg (Fin q) = (if q = 0 then NZero else Fin (- q))"

text \<open>
  Addition. An exact sum of 0 is the positive zero unless both operands are
  negative zeros.
\<close>

definition fadd :: "double \<Rightarrow> double \<Rightarrow> double" where
  "fadd x y =
     (if x = NaN \<or> y = NaN then NaN
      else if is_inf x \<and> is_inf y then (if x = y then x else NaN)
      else if is_inf x then x
      else if is_inf y then y
      else if val x + val y = 0 then mk_zero (sign_bit x \<and> sign_bit y)
      else fround (val x + val y < 0) \<bar>val x + val y\<bar>)"

definition fsub :: "double \<Rightarrow> double \<Rightarrow> double" where
  "fsub x y = fadd x (fneg y)"

definition fmul :: "double \<Rightarrow> double \<Rightarrow> double" where
  "fmul x y =
     (if x = NaN \<or> y = NaN then NaN
      else if (is_inf x \<and> is_zero y) \<or> (is_zero x \<and> is_inf y) then NaN
      else if is_inf x \<or> is_inf y then mk_inf (sign_bit x \<noteq> sign_bit y)
      else fround (sign_bit x \<noteq> sign_bit y) (mag x * mag y))"

definition fdiv :: "double \<Rightarrow> double \<Rightarrow> double" where
  "fdiv x y =
     (if x = NaN \<or> y = NaN then NaN
      else if (is_inf x \<and> is_inf y) \<or> (is_zero x \<and> is_zero y) then NaN
      else if is_inf x \<or> is_zero y then mk_inf (sign_bit x \<noteq> sign_bit y)
      else if is_inf y then mk_zero (sign_bit x \<noteq> sign_bit y)
      else fround (sign_bit x \<noteq> sign_bit y) (mag x / mag y))"

text \<open>\<open>x < y\<close> and \<open>x > y\<close>: false when an operand is NaN; the zeros are equal.\<close>

definition flt :: "double \<Rightarrow> double \<Rightarrow> bool" where
  "flt x y =
     (x \<noteq> NaN \<and> y \<noteq> NaN \<and>
      (if is_inf x \<or> is_inf y then (x = NInf \<and> y \<noteq> NInf) \<or> (y = PInf \<and> x \<noteq> PInf)
       else val x < val y))"

definition fgt :: "double \<Rightarrow> double \<Rightarrow> bool" where
  "fgt x y = flt y x"

text \<open>\<open>x == y\<close> on numbers: NaN equals nothing, the two zeros are equal.\<close>

definition feq :: "double \<Rightarrow> double \<Rightarrow> bool" where
  "feq x y = (x \<noteq> NaN \<and> y \<noteq> NaN \<and> (x = y \<or> (is_zero x \<and> is_zero y)))"

text \<open>\<open>Math.floor\<close>.\<close>

fun ffloor :: "double \<Rightarrow> double" where
  "ffloor (Fin q) = Fin (of_int \<lfloor>q\<rfloor>)"
| "ffloor x = x"

text \<open>
  \<open>Math.sqrt(3.0)\<close>, the only square root the program takes: the binary64
  number \<open>0x1.bb67ae8584caa\<close>, which is the one nearest to the real square
  root of 3 (lemma \<open>sqrt3_nearest\<close>).
\<close>

definition sqrt3 :: double where
  "sqrt3 = Fin (7800463371553962 / 2 ^ 52)"

text \<open>
  ToInt32, the conversion every bitwise operator applies to its operands:
  NaN, the infinities and the zeros give 0; a finite value is truncated
  towards zero and wrapped to 32 bits.
\<close>

fun to_int32 :: "double \<Rightarrow> 32 word" where
  "to_int32 (Fin q) = word_of_int (if 0 \<le> q then \<lfloor>q\<rfloor> else \<lceil>q\<rceil>)"
| "to_int32 _ = 0"

text \<open>The number a signed, or an unsigned, 32-bit result stands for.\<close>

definition of_int32 :: "32 word \<Rightarrow> double" where
  "of_int32 w = Fin (of_int (sint w))"

definition of_uint32 :: "32 word \<Rightarrow> double" where
  "of_uint32 w = Fin (of_int (uint w))"

section \<open>Typed arrays\<close>

text \<open>
  A \<open>Uint8Array\<close> has a fixed length. Reading outside it gives \<open>undefined\<close>
  (\<open>None\<close>), writing outside it does nothing, and storing \<open>undefined\<close>
  stores 0.
\<close>

type_synonym u8array = "8 word list"

definition ta_get :: "u8array \<Rightarrow> int \<Rightarrow> 8 word option" where
  "ta_get a k = (if 0 \<le> k \<and> k < int (length a) then Some (a ! nat k) else None)"

definition ta_set :: "u8array \<Rightarrow> int \<Rightarrow> 8 word option \<Rightarrow> u8array" where
  "ta_set a k v =
     (if 0 \<le> k \<and> k < int (length a)
      then a[nat k := (case v of None \<Rightarrow> 0 | Some w \<Rightarrow> w)] else a)"

definition tableSize :: nat where
  "tableSize = 512"

record tables =
  perm :: u8array
  permMod12 :: u8array

text \<open>The tables as the module creates them: 512 zero bytes each.\<close>

definition initial_tables :: tables where
  "initial_tables = \<lparr>perm = replicate tableSize 0, permMod12 = replicate tableSize 0\<rparr>"

section \<open>SplitMix32\<close>

text \<open>
  The generator is a closure over the variable \<open>a\<close>, which holds the seed as
  it was passed until the first call. One call takes the value of \<open>a\<close> and
  returns its new value and the number drawn.
\<close>

definition splitmix32 :: "double \<Rightarrow> double \<times> double" where
  "splitmix32 a =
     (let a0 = to_int32 a;
          a1 = to_int32 (fadd (of_int32 a0) (Fin 0x9e3779b9));
          t0 = a1 XOR drop_bit 16 a1;
          t1 = t0 * 0x21f0aaad;
          t2 = t1 XOR drop_bit 15 t1;
          t3 = t2 * 0x735a2d97;
          t4 = t3 XOR drop_bit 15 t3
      in (of_int32 a1, fdiv (of_uint32 t4) (Fin 4294967296)))"

section \<open>Seeding\<close>

text \<open>The first loop of \<open>seed\<close>: \<open>p[i] = i\<close> for \<open>i < tableSize / 2\<close>.\<close>

function init_loop :: "nat \<Rightarrow> u8array \<Rightarrow> u8array" where
  "init_loop i p =
     (if i < tableSize div 2 then init_loop (i + 1) (ta_set p (int i) (Some (of_nat i)))
      else p)"
  by pat_completeness auto
termination
  by (relation "measure (\<lambda>(i, p). tableSize div 2 - i)") auto

text \<open>
  The second loop: \<open>r = i + ~~(random() * (256 - i))\<close>, then the two
  elements are exchanged; both are read before either is written. The state
  of the generator is threaded through.
\<close>

function shuffle_loop :: "nat \<Rightarrow> u8array \<Rightarrow> double \<Rightarrow> u8array \<times> double" where
  "shuffle_loop i p a =
     (if i < tableSize div 2 - 1
      then (let (a', u) = splitmix32 a;
                r = int i + sint (to_int32 (fmul u (Fin (of_nat (256 - i)))));
                pi = ta_get p (int i);
                pr = ta_get p r
            in shuffle_loop (i + 1) (ta_set (ta_set p r pi) (int i) pr) a')
      else (p, a))"
  by pat_completeness auto
termination
  by (relation "measure (\<lambda>(i, p, a). tableSize div 2 - 1 - i)") auto

text \<open>
  The third loop: \<open>perm[i] = p[i & 255]\<close> and \<open>permMod12[i] = perm[i] % 12\<close>.
  The remainder of \<open>undefined\<close> is NaN, which a byte array stores as 0.
\<close>

function fill_loop :: "nat \<Rightarrow> u8array \<Rightarrow> tables \<Rightarrow> tables" where
  "fill_loop i p T =
     (if i < tableSize
      then (let perm' = ta_set (perm T) (int i) (ta_get p (int i AND 255));
                pm' = ta_set (permMod12 T) (int i)
                        (map_option (\<lambda>w. w mod 12) (ta_get perm' (int i)))
            in fill_loop (i + 1) p \<lparr>perm = perm', permMod12 = pm'\<rparr>)
      else T)"
  by pat_completeness auto
termination
  by (relation "measure (\<lambda>(i, p, T). tableSize - i)") auto

text \<open>The working array and the generator after the first two loops.\<close>

definition seed_shuffle :: "double \<Rightarrow> u8array \<times> double" where
  "seed_shuffle k = shuffle_loop 0 (init_loop 0 (replicate tableSize 0)) k"

definition seed :: "double \<Rightarrow> tables \<Rightarrow> tables" where
  "seed k T = fill_loop 0 (fst (seed_shuffle k)) T"

section \<open>Gradients\<close>

text \<open>
  \<open>grad\<close>. The operator \<open>&\<close> converts the hash to 32 bits first; its result
  \<open>h\<close> is a number again.
\<close>

definition grad :: "int \<Rightarrow> double \<Rightarrow> double \<Rightarrow> double" where
  "grad hash x y =
     (let h = sint ((word_of_int hash :: 32 word) AND 0x0F);
          u = (if h < 8 then x else y);
          v = (if h < 4 then y else Fin 0)
      in fadd (if h AND 1 = 0 then u else fneg u) (if h AND 2 = 0 then v else fneg v))"

text \<open>
  The gradient dot function in the words of the specification: \<open>h\<close> is the
  hash masked to four bits, and the two signs are bits 0 and 1 of \<open>h\<close>.
\<close>

definition grad_spec :: "int \<Rightarrow> double \<Rightarrow> double \<Rightarrow> double" where
  "grad_spec hash x y =
     (let h = hash AND 0xF;
          u = (if h < 8 then x else y);
          v = (if h < 4 then y else Fin 0)
      in fadd (if \<not> bit h 0 then u else fneg u) (if \<not> bit h 1 then v else fneg v))"

section \<open>Simplex noise\<close>

definition F2 :: double where
  "F2 = fmul (Fin (1 / 2)) (fsub sqrt3 (Fin 1))"

definition G2 :: double where
  "G2 = fdiv (fsub (Fin 3) sqrt3) (Fin 6)"

text \<open>\<open>i &= 255\<close>: the number left in \<open>i\<close>.\<close>

definition mask255 :: "double \<Rightarrow> int" where
  "mask255 i = sint (to_int32 i AND 255)"

text \<open>
  \<open>permMod12[a + perm[b]]\<close>. Were \<open>perm[b]\<close> undefined, the sum would be
  NaN and the outer read undefined as well.
\<close>

definition hash_at :: "tables \<Rightarrow> int \<Rightarrow> int \<Rightarrow> 8 word option" where
  "hash_at T a b =
     (case ta_get (perm T) b of
        None \<Rightarrow> None
      | Some pb \<Rightarrow> ta_get (permMod12 T) (a + uint pb))"

text \<open>
  The hash as \<open>grad\<close> receives it: a byte of the table is its value, and
  \<open>undefined\<close> counts as 0 under \<open>&\<close>.
\<close>

definition hash_number :: "8 word option \<Rightarrow> int" where
  "hash_number g = (case g of None \<Rightarrow> 0 | Some w \<Rightarrow> uint w)"

definition noise :: "tables \<Rightarrow> double \<Rightarrow> double \<Rightarrow> double" where
  "noise T xin yin =
     (let s = fmul (fadd xin yin) F2;
          i = ffloor (fadd xin s);
          j = ffloor (fadd yin s);
          t = fmul (fadd i j) G2;
          x0 = fsub xin (fsub i t);
          y0 = fsub yin (fsub j t);
          (i1, j1) = (if fgt x0 y0 then (1, 0) else (0, 1));
          x1 = fadd (fsub x0 (Fin (of_int i1))) G2;
          y1 = fadd (fsub y0 (Fin (of_int j1))) G2;
          x2 = fadd (fsub x0 (Fin 1)) (fmul (Fin 2) G2);
          y2 = fadd (fsub y0 (Fin 1)) (fmul (Fin 2) G2);
          i = mask255 i;
          j = mask255 j;
          gi0 = hash_at T i j;
          gi1 = hash_at T (i + i1) (j + j1);
          gi2 = hash_at T (i + 1) (j + 1);
          t0 = fsub (fsub (Fin (1 / 2)) (fmul x0 x0)) (fmul y0 y0);
          n0 = (if flt t0 (Fin 0) then Fin 0
                else (let t0 = fmul t0 t0
                      in fmul (fmul t0 t0) (grad (hash_number gi0) x0 y0)));
          t1 = fsub (fsub (Fin (1 / 2)) (fmul x1 x1)) (fmul y1 y1);
          n1 = (if flt t1 (Fin 0) then Fin 0
                else (let t1 = fmul t1 t1
                      in fmul (fmul t1 t1) (grad (hash_number gi1) x1 y1)));
          t2 = fsub (fsub (Fin (1 / 2)) (fmul x2 x2)) (fmul y2 y2);
          n2 = (if flt t2 (Fin 0) then Fin 0
                else (let t2 = fmul t2 t2
                      in fmul (fmul t2 t2) (grad (hash_number gi2) x2 y2)))
      in fmul (Fin 70) (fadd (fadd n0 n1) n2))"

section \<open>Fractional Brownian motion\<close>

text \<open>
  The loop of \<open>fbm\<close>. The counter \<open>i\<close> and the bound \<open>octaves\<close> are numbers:
  with an infinite bound the loop does not end, so the result is optional.
\<close>

partial_function (option) fbm_loop ::
  "tables \<Rightarrow> double \<Rightarrow> double \<Rightarrow> double \<Rightarrow> double \<Rightarrow> double \<Rightarrow>
   double \<Rightarrow> double \<Rightarrow> double \<Rightarrow> double \<Rightarrow> double option" where
  "fbm_loop T x y octaves persistence lacunarity i total' amplitude frequency =
     (if flt i octaves
      then fbm_loop T x y octaves persistence lacunarity (fadd i (Fin 1))
             (fadd total' (fmul (noise T (fmul x frequency) (fmul y frequency)) amplitude))
             (fmul amplitude persistence) (fmul frequency lacunarity)
      else Some total')"

definition fbm ::
  "tables \<Rightarrow> double \<Rightarrow> double \<Rightarrow> double \<Rightarrow> double \<Rightarrow> double \<Rightarrow> double \<Rightarrow> double \<Rightarrow>
   double option" where
  "fbm T x y octaves amplitude frequency persistence lacunarity =
     fbm_loop T x y octaves persistence lacunarity (Fin 0) (Fin 0) amplitude frequency"

declare init_loop.simps [simp del] shuffle_loop.simps [simp del] fill_loop.simps [simp del]

text \<open>The byte the third loop copies to index \<open>i\<close> of \<open>perm\<close>.\<close>

definition src_byte :: "u8array \<Rightarrow> nat \<Rightarrow> 8 word" where
  "src_byte p i = (case ta_get p (int i AND 255) of None \<Rightarrow> 0 | Some w \<Rightarrow> w)"

section \<open>The generator and the shuffle in the words of the specification\<close>

text \<open>
  One step of SplitMix32 on a 32-bit state held as a natural number: the new
  state, and the number drawn, the final \<open>t\<close> divided by \<open>2 ^ 32\<close>. Additions
  and multiplications wrap at 32 bits and the right shifts are logical.
\<close>

definition splitmix32_spec :: "nat \<Rightarrow> nat \<times> rat" where
  "splitmix32_spec a =
     (let a = (a + 0x9e3779b9) mod 2 ^ 32;
          t = a XOR (a div 2 ^ 16);
          t = (t * 0x21f0aaad) mod 2 ^ 32;
          t = t XOR (t div 2 ^ 15);
          t = (t * 0x735a2d97) mod 2 ^ 32;
          t = t XOR (t div 2 ^ 15)
      in (a, of_nat t / 2 ^ 32))"

text \<open>
  Iteration \<open>i\<close> of the shuffle on the working array and the state of the
  generator: draw \<open>r = i + floor(random() * (256 - i))\<close> and exchange \<open>p[i]\<close>
  and \<open>p[r]\<close>.
\<close>

definition shuffle_step_spec :: "nat \<Rightarrow> nat list \<times> nat \<Rightarrow> nat list \<times> nat" where
  "shuffle_step_spec i = (\<lambda>(p, a).
     (let (a', u) = splitmix32_spec a;
          r = i + nat \<lfloor>u * of_nat (256 - i)\<rfloor>
      in (p[i := p ! r, r := p ! i], a')))"

text \<open>
  The working array starts as \<open>p[i] = i\<close> for \<open>i\<close> from 0 to 255 and goes through
  the 255 iterations \<open>i = 0, \<dots>, 254\<close>, from the generator in state \<open>a\<close>.
\<close>

definition seed_spec :: "nat \<Rightarrow> nat list \<times> nat" where
  "seed_spec a = fold shuffle_step_spec [0..<255] ([0..<256], a)"

text \<open>
  The working array of \<open>seed\<close> as bytes: the 256 entries in use, then the
  256 bytes the loops never touch.
\<close>

definition enc :: "nat list \<Rightarrow> u8array" where
  "enc q = map of_nat q @ replicate 256 0"

text \<open>The mixing function of \<open>splitmix32\<close> on 32-bit words, for the proofs.\<close>

definition mix :: "32 word \<Rightarrow> 32 word" where
  "mix a1 = (let t0 = a1 XOR drop_bit 16 a1;
          t1 = t0 * 0x21f0aaad;
          t2 = t1 XOR drop_bit 15 t1;
          t3 = t2 * 0x735a2d97
      in t3 XOR drop_bit 15 t3)"

text \<open>
  Following values through the shuffle, for the proofs: the index \<open>r\<close> drawn in
  iteration \<open>i\<close> from the generator in state \<open>a\<close>, where a position goes when
  \<open>p[i]\<close> and \<open>p[r]\<close> are exchanged, and the positions of some values after \<open>n\<close>
  iterations from iteration \<open>i\<close> on.
\<close>

definition draw_index :: "nat \<Rightarrow> 32 word \<Rightarrow> nat" where
  "draw_index i a = i + unat (mix a) * (256 - i) div 2 ^ 32"

definition move :: "nat \<Rightarrow> nat \<Rightarrow> nat \<Rightarrow> nat" where
  "move i r pos = (if pos = i then r else if pos = r then i else pos)"

primrec track :: "nat \<Rightarrow> nat \<Rightarrow> 32 word \<Rightarrow> nat list \<Rightarrow> nat list" where
  "track 0 i a ps = ps"
| "track (Suc n) i a ps =
     track n (i + 1) (a + 0x9e3779b9) (map (move i (draw_index i (a + 0x9e3779b9))) ps)"

section \<open>Rounding\<close>

lemma rne_of_int: "rne (of_int z) = z"
  by (simp add: rne_def)

lemma rne_near:
  assumes "\<bar>x - of_int m\<bar> < 1 / 2"
  shows "rne x = m"
proof (cases "of_int m \<le> x")
  case True
  with assms have "\<lfloor>x\<rfloor> = m" by (intro floor_unique) auto
  with assms True show ?thesis by (simp add: rne_def)
next
  case False
  with assms have f: "\<lfloor>x\<rfloor> = m - 1" by (intro floor_unique) auto
  from assms False have "1 / 2 < x - of_int (m - 1)" by auto
  with f show ?thesis by (simp add: rne_def)
qed

lemma rne_tie:
  assumes "x = of_int f + 1 / 2"
  shows "rne x = (if even f then f else f + 1)"
proof -
  have "\<lfloor>x\<rfloor> = f" using assms by (intro floor_unique) auto
  then show ?thesis using assms by (simp add: rne_def)
qed

lemma rne_nonneg: "0 \<le> x \<Longrightarrow> 0 \<le> rne x"
  by (auto simp: rne_def Let_def)

lemma rne_le:
  assumes "x \<le> of_int N"
  shows "rne x \<le> N"
proof -
  have fl: "\<lfloor>x\<rfloor> \<le> N" using assms by (simp add: floor_le_iff)
  show ?thesis
  proof (cases "\<lfloor>x\<rfloor> = N")
    case True
    then have "of_int N \<le> x" using of_int_floor_le[of x] by simp
    with assms have "x = of_int N" by simp
    then show ?thesis by (simp add: rne_of_int)
  next
    case False
    with fl have "\<lfloor>x\<rfloor> + 1 \<le> N" by simp
    then show ?thesis by (auto simp: rne_def Let_def)
  qed
qed

lemma subnormal_scale_pos: "0 < subnormal_scale"
  by (simp add: subnormal_scale_def)

lemma scale_split:
  assumes "k \<le> 1074"
  shows "subnormal_scale = 2 ^ k * 2 ^ (1074 - k)"
proof -
  from assms have "k + (1074 - k) = 1074" by simp
  then have "(2::rat) ^ 1074 = 2 ^ (k + (1074 - k))" by (simp only:)
  then show ?thesis by (simp only: subnormal_scale_def power_add)
qed

lemma fround_zero: "fround s 0 = mk_zero s"
  by (simp add: fround_def rne_def overflow_bound_def subnormal_scale_def)

text \<open>A multiple of 2 ^ -1074 with at most 53 significant bits is left alone.\<close>

lemma fround_exact_core:
  assumes M: "0 < M" "M < 2 ^ 53"
    and a: "a = of_int M * 2 ^ j / subnormal_scale"
    and ov: "a < overflow_bound"
  shows "fround s a = Fin (if s then - a else a)"
proof -
  have as: "a * subnormal_scale = of_int (M * 2 ^ j)"
    using subnormal_scale_pos by (simp add: a)
  have bl: "bitlen (M * 2 ^ j) = bitlen M + int j"
    using M by simp
  have b53: "bitlen M \<le> 53"
    using M by (simp add: bitlen_le_iff_power)
  have b1: "1 \<le> bitlen M"
    using M by (simp add: bitlen_ge_iff_power)
  define sh where "sh = nat (bitlen M + int j - 53)"
  have shj: "sh \<le> j" using b53 by (simp add: sh_def)
  have split: "(2::int) ^ j = 2 ^ (j - sh) * 2 ^ sh"
    using shj by (simp flip: power_add)
  have q: "a * subnormal_scale / 2 ^ sh = of_int (M * 2 ^ (j - sh))"
    unfolding as by (subst split) simp
  have v: "of_int (M * 2 ^ (j - sh)) * 2 ^ sh / subnormal_scale = a"
  proof -
    have "(of_int (M * 2 ^ (j - sh)) :: rat) * 2 ^ sh = of_int (M * (2 ^ (j - sh) * 2 ^ sh))"
      by simp
    also have "\<dots> = of_int (M * 2 ^ j)" by (simp only: split)
    finally show ?thesis by (simp add: a)
  qed
  have nz: "M * 2 ^ (j - sh) \<noteq> 0" using M by simp
  show ?thesis
    unfolding fround_def as floor_of_int bl
    unfolding sh_def[symmetric] as[symmetric] q rne_of_int Let_def v
    using ov nz by simp
qed


lemma overflow_bound_gt: "a \<le> 2 ^ 53 \<Longrightarrow> a < overflow_bound"
proof -
  assume "a \<le> 2 ^ 53"
  also have "(2::rat) ^ 53 < 2 ^ 1024" by (rule power_strict_increasing) simp_all
  finally show ?thesis by (simp only: overflow_bound_def)
qed

lemma fround_exact:
  assumes M: "0 < M" "M \<le> 2 ^ 53"
    and a: "a = of_int M * 2 ^ j / subnormal_scale"
    and ov: "a < overflow_bound"
  shows "fround s a = Fin (if s then - a else a)"
proof (cases "M = 2 ^ 53")
  case False
  with M have "M < 2 ^ 53" by simp
  with M(1) a ov show ?thesis by (intro fround_exact_core)
next
  case True
  have "a = of_int (2 ^ 52) * 2 ^ (Suc j) / subnormal_scale"
    by (simp add: a True)
  with ov show ?thesis by (intro fround_exact_core[where M = "2 ^ 52" and j = "Suc j"]) simp_all
qed

lemma fround_int:
  assumes "0 < z" "z \<le> 2 ^ 53"
  shows "fround s (of_int z) = Fin (if s then - of_int z else of_int z)"
proof (rule fround_exact[where M = z and j = 1074])
  have "subnormal_scale = 2 ^ 1074 * 2 ^ 0"
    using scale_split[of 1074] by simp
  then show "(of_int z :: rat) = of_int z * 2 ^ 1074 / subnormal_scale"
    using subnormal_scale_pos by (simp only: power_0 mult_1_right) simp
  have "(of_int z :: rat) \<le> of_int (2 ^ 53)"
    using assms(2) by (simp only: of_int_le_iff)
  then show "(of_int z :: rat) < overflow_bound"
    by (intro overflow_bound_gt) simp
qed (use assms in auto)

lemma fround_dyadic:
  assumes "0 < n" "n \<le> 2 ^ 53" "k \<le> 1074"
  shows "fround s (of_int n / 2 ^ k) = Fin (if s then - (of_int n / 2 ^ k) else of_int n / 2 ^ k)"
proof (rule fround_exact[where M = n and j = "1074 - k"])
  show "(of_int n :: rat) / 2 ^ k = of_int n * 2 ^ (1074 - k) / subnormal_scale"
    by (simp add: scale_split[OF assms(3)])
  have "(of_int n :: rat) / 2 ^ k \<le> of_int n"
    using assms(1) by (simp add: divide_le_eq mult_le_cancel_left1 self_le_power)
  also have "\<dots> \<le> of_int (2 ^ 53)" using assms(2) by (simp only: of_int_le_iff)
  also have "\<dots> = 2 ^ 53" by simp
  finally show "(of_int n :: rat) / 2 ^ k < overflow_bound"
    by (rule overflow_bound_gt)
qed (use assms in auto)

text \<open>What rounding returns is a binary64 number.\<close>

lemma fround_is_double:
  assumes "0 \<le> a"
  shows "is_double (fround s a)"
proof -
  define a' where "a' = a * subnormal_scale"
  define sh where "sh = nat (bitlen \<lfloor>a'\<rfloor> - 53)"
  define m where "m = rne (a' / 2 ^ sh)"
  define v where "v = (of_int m :: rat) * 2 ^ sh / subnormal_scale"
  have fr: "fround s a = (if overflow_bound \<le> v then mk_inf s
         else if m = 0 then mk_zero s else Fin (if s then - v else v))"
    by (simp add: fround_def Let_def a'_def sh_def m_def v_def)
  have a'0: "0 \<le> a'" using assms subnormal_scale_pos by (simp add: a'_def)
  have lt: "a' < 2 ^ nat (bitlen \<lfloor>a'\<rfloor>)"
  proof (cases "0 < \<lfloor>a'\<rfloor>")
    case True
    from bitlen_bounds[OF True] have "\<lfloor>a'\<rfloor> < 2 ^ nat (bitlen \<lfloor>a'\<rfloor>)" by simp
    then show ?thesis by (simp add: floor_less_iff)
  next
    case False
    with a'0 have "\<lfloor>a'\<rfloor> = 0" by (simp add: order_antisym)
    then have "a' < 1" by (simp add: floor_eq_iff)
    also have "(1::rat) \<le> 2 ^ nat (bitlen \<lfloor>a'\<rfloor>)" by simp
    finally show ?thesis .
  qed
  have "nat (bitlen \<lfloor>a'\<rfloor>) \<le> 53 + sh" by (simp add: sh_def)
  then have "(2::rat) ^ nat (bitlen \<lfloor>a'\<rfloor>) \<le> 2 ^ (53 + sh)"
    by (intro power_increasing) simp_all
  with lt have "a' < 2 ^ 53 * 2 ^ sh" by (simp add: power_add)
  then have q: "a' / 2 ^ sh \<le> of_int (2 ^ 53)" by (simp add: divide_le_eq)
  have m53: "m \<le> 2 ^ 53" unfolding m_def using q by (rule rne_le)
  have m0: "0 \<le> m" unfolding m_def using a'0 by (intro rne_nonneg) simp
  show ?thesis
  proof (cases "overflow_bound \<le> v")
    case True
    then show ?thesis by (simp add: fr is_double_def mk_inf_def)
  next
    case nov: False
    show ?thesis
    proof (cases "m = 0")
      case True
      with nov show ?thesis by (simp add: fr is_double_def mk_zero_def fround_zero)
    next
      case False
      with m0 have mp: "0 < m" by simp
      have vp: "0 < v" using mp subnormal_scale_pos by (simp add: v_def)
      have "fround s v = Fin (if s then - v else v)"
        using mp m53 nov by (intro fround_exact[where M = m and j = sh]) (simp_all add: v_def)
      with vp nov False fr show ?thesis by (cases s) (simp_all add: is_double_def)
    qed
  qed
qed

text \<open>Checking an inexact rounding in the normal range below \<open>2 ^ 53\<close>.\<close>

lemma fround_normal:
  assumes k: "k \<le> 1074"
    and lo: "2 ^ 52 \<le> a * 2 ^ k" and hi: "a * 2 ^ k < 2 ^ 53"
    and m: "rne (a * 2 ^ k) = m"
  shows "fround s a = Fin (if s then - (of_int m / 2 ^ k) else of_int m / 2 ^ k)"
proof -
  define j where "j = 1074 - k"
  have S: "subnormal_scale = 2 ^ k * 2 ^ j"
    unfolding j_def using k by (rule scale_split)
  define x where "x = a * 2 ^ k"
  have a': "a * subnormal_scale = x * 2 ^ j" by (simp add: S x_def)
  have fl: "\<lfloor>x * 2 ^ j\<rfloor> < 2 ^ (53 + j)"
  proof -
    have "x * 2 ^ j < 2 ^ 53 * 2 ^ j" using hi by (simp add: x_def)
    then have "x * 2 ^ j < of_int (2 ^ (53 + j))" by (simp add: power_add)
    then show ?thesis by (simp only: floor_less_iff)
  qed
  have fl2: "2 ^ (52 + j) \<le> \<lfloor>x * 2 ^ j\<rfloor>"
  proof -
    have "2 ^ 52 * 2 ^ j \<le> x * 2 ^ j" using lo by (simp add: x_def)
    then have "of_int (2 ^ (52 + j)) \<le> x * 2 ^ j" by (simp add: power_add)
    then show ?thesis by (simp only: le_floor_iff)
  qed
  have bl: "bitlen \<lfloor>x * 2 ^ j\<rfloor> = 53 + int j"
  proof (rule antisym)
    show "bitlen \<lfloor>x * 2 ^ j\<rfloor> \<le> 53 + int j"
      using fl by (simp add: bitlen_le_iff_power nat_add_distrib)
    show "53 + int j \<le> bitlen \<lfloor>x * 2 ^ j\<rfloor>"
      using fl2 by (simp add: bitlen_ge_iff_power nat_add_distrib)
  qed
  have sh: "nat (bitlen \<lfloor>a * subnormal_scale\<rfloor> - 53) = j"
    by (simp add: a' bl)
  have q: "a * subnormal_scale / 2 ^ j = x" by (simp add: a')
  have m53: "m \<le> 2 ^ 53"
    unfolding m[symmetric] using hi by (intro rne_le) simp
  have mpos: "0 < m"
  proof -
    have "\<lfloor>x\<rfloor> \<le> rne x" by (auto simp: rne_def Let_def)
    moreover have "(1::rat) \<le> 2 ^ 52" by simp
    then have "1 \<le> x" using lo unfolding x_def by (rule order_trans)
    then have "1 \<le> \<lfloor>x\<rfloor>" by (simp add: le_floor_iff)
    moreover have "rne x = m" using m by (simp only: x_def)
    ultimately show ?thesis by linarith
  qed
  have v: "(of_int m :: rat) * 2 ^ j / subnormal_scale = of_int m / 2 ^ k"
    by (simp add: S)
  have "(of_int m :: rat) / 2 ^ k \<le> of_int m"
    using mpos by (simp add: divide_le_eq mult_le_cancel_left1 self_le_power)
  also have "\<dots> \<le> of_int (2 ^ 53)" using m53 by (simp only: of_int_le_iff)
  also have "\<dots> = 2 ^ 53" by simp
  finally have nov: "\<not> overflow_bound \<le> of_int m / 2 ^ k"
    using overflow_bound_gt by (simp add: not_le)
  show ?thesis
    unfolding fround_def sh q Let_def
    using nov mpos m by (simp add: x_def v)
qed

lemma fround_near:
  assumes "k \<le> 1074" "2 ^ 52 \<le> a * 2 ^ k" "a * 2 ^ k < 2 ^ 53"
    and "\<bar>a * 2 ^ k - of_int m\<bar> < 1 / 2"
    and "c = (if s then - (of_int m / 2 ^ k) else of_int m / 2 ^ k)"
  shows "fround s a = Fin c"
  using fround_normal[OF assms(1-3) rne_near[OF assms(4)], of s] assms(5) by simp

lemma fround_tie:
  assumes "k \<le> 1074" "2 ^ 52 \<le> a * 2 ^ k" "a * 2 ^ k < 2 ^ 53"
    and "a * 2 ^ k = of_int f + 1 / 2" and "m = (if even f then f else f + 1)"
    and "c = (if s then - (of_int m / 2 ^ k) else of_int m / 2 ^ k)"
  shows "fround s a = Fin c"
  using fround_normal[OF assms(1-3), of m s] rne_tie[OF assms(4)] assms(5,6) by simp


lemma sqrt3_value: "sqrt3 = Fin (3900231685776981 / 2251799813685248)"
  by (simp add: sqrt3_def)

lemma F2_G2_value:
  "F2 = Fin (1648431872091733 / 4503599627370496)"
  "G2 = Fin (951722585092921 / 4503599627370496)"
proof -
  have k1: "fsub (Fin (3900231685776981 / 2251799813685248)) (Fin 1) =
      Fin (1648431872091733 / 2251799813685248)"
    by (simp add: fadd_def fsub_def fmul_def fdiv_def)
      (rule fround_near[where k = 53 and m = 6593727488366932]; simp)
  have k2: "fmul (Fin (1 / 2)) (Fin (1648431872091733 / 2251799813685248)) =
      Fin (1648431872091733 / 4503599627370496)"
    by (simp add: fadd_def fsub_def fmul_def fdiv_def)
      (rule fround_near[where k = 54 and m = 6593727488366932]; simp)
  have k3: "fsub (Fin 3) (Fin (3900231685776981 / 2251799813685248)) =
      Fin (2855167755278763 / 2251799813685248)"
    by (simp add: fadd_def fsub_def fmul_def fdiv_def)
      (rule fround_near[where k = 52 and m = 5710335510557526]; simp)
  have k4: "fdiv (Fin (2855167755278763 / 2251799813685248)) (Fin 6) =
      Fin (951722585092921 / 4503599627370496)"
    by (simp add: fadd_def fsub_def fmul_def fdiv_def)
      (rule fround_near[where k = 55 and m = 7613780680743368]; simp)
  show "F2 = Fin (1648431872091733 / 4503599627370496)"
    by (simp only: F2_def sqrt3_value k1 k2)
  show "G2 = Fin (951722585092921 / 4503599627370496)"
    by (simp only: G2_def sqrt3_value k3 k4)
qed

lemma sqrt3_nearest:
  "is_double sqrt3 \<and> \<bar>sqrt 3 - real_of_rat (val sqrt3)\<bar> < 1 / 2 ^ 53"
proof -
  have d: "is_double sqrt3"
    using fround_dyadic[of 7800463371553962 52 False]
    by (simp add: is_double_def sqrt3_def)
  define c :: real where "c = 7800463371553962 / 2 ^ 52"
  have v: "real_of_rat (val sqrt3) = c"
    by (simp add: sqrt3_def c_def of_rat_divide of_rat_power)
  have lo: "c - 1 / 2 ^ 53 < sqrt 3"
    by (rule real_less_rsqrt) (simp add: c_def power2_eq_square)
  have hi: "sqrt 3 < c + 1 / 2 ^ 53"
    by (rule real_less_lsqrt) (simp_all add: c_def power2_eq_square)
  have "\<bar>sqrt 3 - c\<bar> < 1 / 2 ^ 53" using lo hi by linarith
  with d show ?thesis unfolding v by (rule conjI)
qed

lemma fmul_is_double: "is_double (fmul x y)"
proof -
  have "0 \<le> mag x * mag y" by (cases x; cases y) simp_all
  then have "is_double (fround s (mag x * mag y))" for s by (rule fround_is_double)
  then show ?thesis by (simp add: fmul_def is_double_def mk_inf_def)
qed

lemma fadd_zero_left:
  assumes "is_double p"
  shows "fadd (Fin 0) p = (if p = NZero then Fin 0 else p)"
proof (cases p)
  case (Fin q)
  with assms show ?thesis
    by (cases "q = 0") (simp_all add: fadd_def is_double_def mk_zero_def)
qed (simp_all add: fadd_def mk_zero_def)

lemma fadd_zero_one: "fadd (Fin 0) (Fin 1) = Fin 1"
  using fround_int[of 1 False] by (simp add: fadd_def)

section \<open>One call of the generator\<close>

lemma sint_small:
  assumes "0 \<le> z" "z < 2 ^ 31"
  shows "sint (word_of_int z :: 32 word) = z"
  using assms by (simp add: sint_sbintrunc' signed_take_bit_int_eq_self)

lemma to_int32_of_int: "to_int32 (Fin (of_int z)) = word_of_int z"
  by (simp only: to_int32.simps floor_of_int ceiling_of_int if_cancel)

lemma to_int32_of_int32: "to_int32 (of_int32 w) = w"
  by (simp only: of_int32_def to_int32_of_int) simp

lemma fadd_int_exact:
  assumes "0 < a + b" "a + b \<le> 2 ^ 53"
  shows "fadd (Fin (of_int a)) (Fin (of_int b)) = Fin (of_int (a + b))"
proof -
  have "(of_int a :: rat) + of_int b = of_int (a + b)" by simp
  moreover have "(of_int (a + b) :: rat) > 0" using assms(1) by (simp only: of_int_0_less_iff)
  ultimately show ?thesis
    using fround_int[OF assms, of False] by (simp add: fadd_def)
qed

lemma state_step:
  "to_int32 (fadd (of_int32 w) (Fin 0x9e3779b9)) = w + 0x9e3779b9"
proof -
  have lo: "- (2 ^ 31) \<le> sint w" using sint_ge[of w] by simp
  have hi: "sint w < 2 ^ 31" using sint_lt[of w] by simp
  have "fadd (Fin (of_int (sint w))) (Fin (of_int 0x9e3779b9)) = Fin (of_int (sint w + 0x9e3779b9))"
    using lo hi by (intro fadd_int_exact) simp_all
  then have "fadd (of_int32 w) (Fin 0x9e3779b9) = Fin (of_int (sint w + 0x9e3779b9))"
    by (simp add: of_int32_def)
  then show ?thesis
    by (simp only: to_int32_of_int) simp
qed

lemma output_exact:
  "fdiv (of_uint32 t) (Fin 4294967296) = Fin (of_nat (unat t) / 2 ^ 32)"
proof (cases "t = 0")
  case True
  then show ?thesis
    by (simp add: fdiv_def of_uint32_def fround_zero mk_zero_def)
next
  case False
  then have p: "0 < uint t" by (simp add: word_greater_zero_iff uint_0_iff order_less_le)
  have "uint t < 2 ^ 32" using uint_lt2p[of t] by simp
  then have b: "uint t \<le> 2 ^ 53" by simp
  define q :: rat where "q = of_int (uint t)"
  have q: "0 < q" unfolding q_def using p by (simp only: of_int_0_less_iff)
  have r: "fround False (q / 2 ^ 32) = Fin (q / 2 ^ 32)"
    unfolding q_def using fround_dyadic[OF p b, of 32 False] by simp
  have "fdiv (Fin q) (Fin 4294967296) = Fin (q / 2 ^ 32)"
    using q r by (simp add: fdiv_def)
  moreover have "q = of_nat (unat t)" unfolding q_def by simp
  ultimately show ?thesis
    by (simp only: of_uint32_def q_def)
qed

lemma splitmix32_words:
  "splitmix32 (of_int32 w) =
     (of_int32 (w + 0x9e3779b9), Fin (of_nat (unat (mix (w + 0x9e3779b9))) / 2 ^ 32))"
  by (simp only: splitmix32_def to_int32_of_int32 state_step Let_def output_exact mix_def)

lemma unat_xor_shift:
  "unat (x XOR drop_bit n x) = unat x XOR (unat x div 2 ^ n)" for x :: "32 word"
  by (simp only: unsigned_xor_eq unat_drop_bit_eq) (simp only: drop_bit_eq_div)

lemma words_spec:
  "splitmix32_spec (unat w) =
     (unat (w + 0x9e3779b9), of_nat (unat (mix (w + 0x9e3779b9))) / 2 ^ 32)"
  by (simp add: splitmix32_spec_def mix_def Let_def unat_xor_shift unat_word_ariths)

text \<open>
  C2. From every 32-bit state \<open>w\<close>, held in the variable \<open>a\<close> as a signed number,
  one call of the generator leaves the state the specification describes,
  \<open>a + 0x9e3779b9\<close> wrapped to 32 bits, and returns the number the
  specification describes: the mixed \<open>t\<close> as an unsigned 32-bit value divided
  by \<open>2 ^ 32\<close>, without rounding, at least 0 and below 1.
\<close>

theorem splitmix32_step:
  "splitmix32 (of_int32 w) =
     (of_int32 (of_nat (fst (splitmix32_spec (unat w)))), Fin (snd (splitmix32_spec (unat w)))) \<and>
   fst (splitmix32_spec (unat w)) < 2 ^ 32 \<and>
   0 \<le> snd (splitmix32_spec (unat w)) \<and> snd (splitmix32_spec (unat w)) < 1"
proof -
  have "unat (mix (w + 0x9e3779b9)) < 2 ^ LENGTH(32)" by (rule unsigned_less)
  then have "(of_nat (unat (mix (w + 0x9e3779b9))) :: rat) < of_nat (2 ^ 32)"
    by (simp only: of_nat_less_iff) simp
  then have lt: "(of_nat (unat (mix (w + 0x9e3779b9))) :: rat) / 2 ^ 32 < 1"
    by simp
  have "unat (w + 0x9e3779b9) < 2 ^ LENGTH(32)" by (rule unsigned_less)
  then have st: "unat (w + 0x9e3779b9) < 2 ^ 32" by simp
  have nn: "(0::rat) \<le> of_nat (unat (mix (w + 0x9e3779b9)))"
    by (rule of_nat_0_le_iff)
  show ?thesis
    using lt st nn by (simp add: splitmix32_words words_spec)
qed

section \<open>The third loop of seeding\<close>

lemma and255: "int i AND 255 = int (i mod 256)"
proof -
  have "int i AND 255 = take_bit 8 (int i)"
    by (simp add: take_bit_eq_mask mask_eq_exp_minus_1)
  then show ?thesis by (simp add: take_bit_eq_mod zmod_int)
qed

lemma fill_loop_step:
  assumes "i < 512" "length (perm T) = 512" "length (permMod12 T) = 512"
  shows "fill_loop i p T =
     fill_loop (Suc i) p \<lparr>perm = (perm T)[i := src_byte p i],
                          permMod12 = (permMod12 T)[i := src_byte p i mod 12]\<rparr>"
proof -
  let ?perm' = "ta_set (perm T) (int i) (ta_get p (int i AND 255))"
  have p': "?perm' = (perm T)[i := src_byte p i]"
    using assms by (simp add: ta_set_def src_byte_def)
  have g: "ta_get ((perm T)[i := src_byte p i]) (int i) = Some (src_byte p i)"
    using assms by (simp add: ta_get_def)
  have pm': "ta_set (permMod12 T) (int i) (Some (src_byte p i mod 12))
      = (permMod12 T)[i := src_byte p i mod 12]"
    using assms by (simp add: ta_set_def)
  show ?thesis
    using assms(1) by (subst fill_loop.simps) (simp add: tableSize_def Let_def p' g pm')
qed

lemma fill_loop_closed:
  "i \<le> 512 \<Longrightarrow> length (perm T) = 512 \<Longrightarrow> length (permMod12 T) = 512 \<Longrightarrow>
   fill_loop i p T =
     \<lparr>perm = take i (perm T) @ map (src_byte p) [i..<512],
      permMod12 = take i (permMod12 T) @ map (\<lambda>k. src_byte p k mod 12) [i..<512]\<rparr>"
proof (induction "512 - i" arbitrary: i T)
  case 0
  then have "i = 512" by simp
  with "0.prems" show ?case
    by (subst fill_loop.simps) (simp add: tableSize_def)
next
  case (Suc n)
  have lt: "i < 512" using Suc.hyps(2) by simp
  let ?T' = "\<lparr>perm = (perm T)[i := src_byte p i],
              permMod12 = (permMod12 T)[i := src_byte p i mod 12]\<rparr>"
  have ih: "fill_loop (Suc i) p ?T' =
       \<lparr>perm = take (Suc i) (perm ?T') @ map (src_byte p) [Suc i..<512],
        permMod12 = take (Suc i) (permMod12 ?T') @ map (\<lambda>k. src_byte p k mod 12) [Suc i..<512]\<rparr>"
    using Suc.hyps(2) lt Suc.prems by (intro Suc.hyps(1)) simp_all
  have u: "[i..<512] = i # [Suc i..<512]"
    using lt by (simp add: upt_conv_Cons)
  show ?case
    using lt Suc.prems
    by (simp add: fill_loop_step ih u take_Suc_conv_app_nth)
qed

lemma seed_closed:
  assumes "length (perm T) = 512" "length (permMod12 T) = 512"
  shows "seed k T =
     \<lparr>perm = map (src_byte (fst (seed_shuffle k))) [0..<512],
      permMod12 = map (\<lambda>n. src_byte (fst (seed_shuffle k)) n mod 12) [0..<512]\<rparr>"
  using assms by (simp add: seed_def fill_loop_closed)

lemma src_byte_period: "src_byte p (n + 256) = src_byte p n"
proof -
  have "int (n + 256) AND 255 = int n AND 255"
    by (simp only: and255) simp
  then show ?thesis
    by (simp only: src_byte_def)
qed

text \<open>
  C4. After \<open>seed\<close>, whatever the tables held before, both tables still have
  512 entries, \<open>permMod12[n]\<close> is \<open>perm[n]\<close> modulo 12 for every \<open>n\<close> below 512,
  and \<open>perm[n]\<close> equals \<open>perm[n + 256]\<close> for every \<open>n\<close> below 256.
\<close>

theorem seed_tables_invariant:
  assumes "length (perm T) = 512" "length (permMod12 T) = 512"
  shows "length (perm (seed k T)) = 512 \<and> length (permMod12 (seed k T)) = 512 \<and>
    (\<forall>n<512. unat (permMod12 (seed k T) ! n) = unat (perm (seed k T) ! n) mod 12) \<and>
    (\<forall>n<256. perm (seed k T) ! n = perm (seed k T) ! (n + 256))"
proof -
  have m: "unat (w mod 12) = unat w mod 12" for w :: "8 word"
    by (simp add: unat_mod)
  show ?thesis
    unfolding seed_closed[OF assms]
    by (simp add: m src_byte_period del: upt_Suc)
qed

theorem seed_tables_invariant_witness:
  "length (perm (seed (Fin 1337) initial_tables)) = 512 \<and>
   length (permMod12 (seed (Fin 1337) initial_tables)) = 512 \<and>
   unat (permMod12 (seed (Fin 1337) initial_tables) ! 300) =
     unat (perm (seed (Fin 1337) initial_tables) ! 300) mod 12 \<and>
   perm (seed (Fin 1337) initial_tables) ! 5 =
     perm (seed (Fin 1337) initial_tables) ! (5 + 256)"
proof -
  have h: "length (perm initial_tables) = 512" "length (permMod12 initial_tables) = 512"
    by (simp_all add: initial_tables_def tableSize_def)
  note t = seed_tables_invariant[OF h, of "Fin 1337"]
  from t have l: "length (perm (seed (Fin 1337) initial_tables)) = 512"
    "length (permMod12 (seed (Fin 1337) initial_tables)) = 512" by simp_all
  from t have a: "\<forall>n<512. unat (permMod12 (seed (Fin 1337) initial_tables) ! n) =
      unat (perm (seed (Fin 1337) initial_tables) ! n) mod 12" by simp
  from t have b: "\<forall>n<256. perm (seed (Fin 1337) initial_tables) ! n =
      perm (seed (Fin 1337) initial_tables) ! (n + 256)" by simp
  show ?thesis
    using l a[rule_format, of 300] b[rule_format, of 5] by simp
qed

text \<open>
  C6. The tables \<open>seed(k)\<close> leaves depend on \<open>k\<close> only, not on what the
  tables held before the call: two calls with the same \<open>k\<close>, from any two
  states of the tables, leave identical tables.
\<close>

theorem seed_deterministic:
  assumes "length (perm T1) = 512" "length (permMod12 T1) = 512"
    and "length (perm T2) = 512" "length (permMod12 T2) = 512"
  shows "seed k T1 = seed k T2"
  by (simp add: seed_closed assms)

theorem seed_deterministic_witness:
  "seed (Fin 1337) initial_tables =
   seed (Fin 1337) \<lparr>perm = replicate 512 7, permMod12 = replicate 512 9\<rparr>"
  using seed_deterministic[of initial_tables
      "\<lparr>perm = replicate 512 7, permMod12 = replicate 512 9\<rparr>" "Fin 1337"]
  by (simp add: initial_tables_def tableSize_def)

section \<open>The shuffle\<close>

lemma init_loop_step:
  assumes "i < 256" "length p = 512"
  shows "init_loop i p = init_loop (Suc i) (p[i := of_nat i])"
  using assms by (subst init_loop.simps) (simp add: tableSize_def ta_set_def)

lemma init_loop_closed:
  "i \<le> 256 \<Longrightarrow> length p = 512 \<Longrightarrow>
   init_loop i p = take i p @ map of_nat [i..<256] @ drop 256 p"
proof (induction "256 - i" arbitrary: i p)
  case 0
  then have "i = 256" by simp
  then show ?case by (subst init_loop.simps) (simp add: tableSize_def)
next
  case (Suc n)
  have lt: "i < 256" using Suc.hyps(2) by simp
  have ih: "init_loop (Suc i) (p[i := of_nat i]) =
      take (Suc i) (p[i := of_nat i]) @ map of_nat [Suc i..<256] @ drop 256 (p[i := of_nat i])"
    using Suc.hyps(2) lt Suc.prems by (intro Suc.hyps(1)) simp_all
  have u: "[i..<256] = i # [Suc i..<256]" using lt by (simp add: upt_conv_Cons)
  show ?case
    using lt Suc.prems by (simp add: init_loop_step ih u take_Suc_conv_app_nth)
qed

lemma init_loop_enc: "init_loop 0 (replicate tableSize 0) = enc [0..<256]"
proof -
  have l: "length (replicate tableSize (0 :: 8 word)) = 512" by (simp add: tableSize_def)
  have d: "drop 256 (replicate tableSize (0 :: 8 word)) = replicate 256 0"
    by (simp only: drop_replicate tableSize_def) simp
  show ?thesis
    by (simp only: init_loop_closed[OF le0 l] take_0 append_Nil d enc_def)
qed

lemma splitmix32_raw: "splitmix32 a = splitmix32 (of_int32 (to_int32 a))"
  by (simp only: splitmix32_def to_int32_of_int32)

lemma fmul_draw_exact:
  assumes "n < 2 ^ 32" "0 < c" "c \<le> 256"
  shows "fmul (Fin (of_nat n / 2 ^ 32)) (Fin (of_nat c)) = Fin (of_nat (n * c) / 2 ^ 32)"
proof (cases "n = 0")
  case True
  then show ?thesis by (simp add: fmul_def fround_zero mk_zero_def)
next
  case False
  have "n * c \<le> 2 ^ 32 * 256" using assms by (intro mult_mono) simp_all
  then have "int (n * c) \<le> int (2 ^ 32 * 256)" by (simp only: of_nat_le_iff)
  then have "int (n * c) \<le> 2 ^ 53" by simp
  moreover have "0 < int (n * c)" using False assms by simp
  ultimately have "fround False (of_int (int (n * c)) / 2 ^ 32) = Fin (of_int (int (n * c)) / 2 ^ 32)"
    using fround_dyadic[of "int (n * c)" 32 False] by simp
  then have "fround False (of_nat (n * c) / 2 ^ 32) = Fin (of_nat (n * c) / 2 ^ 32)"
    by simp
  moreover have "(0::rat) \<le> of_nat n" "(0::rat) \<le> of_nat c" by simp_all
  ultimately show ?thesis
    by (simp add: fmul_def abs_mult)
qed


lemma draw_floor:
  assumes "t < 2 ^ 32" "0 < c" "c \<le> 256"
  shows "sint (to_int32 (fmul (Fin (of_nat t / 2 ^ 32)) (Fin (of_nat c)))) =
      int (nat \<lfloor>(of_nat t / 2 ^ 32 :: rat) * of_nat c\<rfloor>)"
    and "nat \<lfloor>(of_nat t / 2 ^ 32 :: rat) * of_nat c\<rfloor> < c"
proof -
  have fl: "\<lfloor>(of_nat (t * c) :: rat) / 2 ^ 32\<rfloor> = int (t * c div 2 ^ 32)"
    using floor_divide_of_nat_eq[of "t * c" "2 ^ 32", where ?'a = rat] by simp
  have "t * c < 2 ^ 32 * c" using assms by simp
  then have lt: "t * c div 2 ^ 32 < c"
    by (simp add: less_mult_imp_div_less mult.commute)
  have e: "(of_nat t / 2 ^ 32 :: rat) * of_nat c = of_nat (t * c) / 2 ^ 32" by simp
  show "nat \<lfloor>(of_nat t / 2 ^ 32 :: rat) * of_nat c\<rfloor> < c"
    unfolding e fl using lt by simp
  have nn: "(0::rat) \<le> of_nat (t * c) / 2 ^ 32" by simp
  have "to_int32 (Fin (of_nat (t * c) / 2 ^ 32)) = word_of_int (int (t * c div 2 ^ 32))"
    using nn fl by (simp only: to_int32.simps if_True)
  moreover have "sint (word_of_int (int (t * c div 2 ^ 32)) :: 32 word) = int (t * c div 2 ^ 32)"
    using lt assms(3) by (intro sint_small) simp_all
  ultimately show "sint (to_int32 (fmul (Fin (of_nat t / 2 ^ 32)) (Fin (of_nat c)))) =
      int (nat \<lfloor>(of_nat t / 2 ^ 32 :: rat) * of_nat c\<rfloor>)"
    unfolding fmul_draw_exact[OF assms] e fl by simp
qed

lemma enc_nth: "n < length q \<Longrightarrow> length q = 256 \<Longrightarrow> enc q ! n = of_nat (q ! n)"
  by (simp only: enc_def nth_append length_map if_True nth_map)

lemma enc_update:
  "n < length q \<Longrightarrow> (enc q)[n := of_nat v] = enc (q[n := v])"
  by (simp only: enc_def list_update_append length_map if_True map_update)

lemma length_enc: "length q = 256 \<Longrightarrow> length (enc q) = 512"
  by (simp only: enc_def length_append length_map length_replicate)

lemma swap_order: "q[r := q ! i, i := q ! r] = q[i := q ! r, r := q ! i]"
  by (cases "i = r") (simp_all add: list_update_swap)

lemma shuffle_loop_step:
  assumes i: "i < 255" and q: "length q = 256"
  shows "shuffle_loop i (enc q) (of_int32 w) =
     shuffle_loop (Suc i) (enc (fst (shuffle_step_spec i (q, unat w))))
       (of_int32 (of_nat (snd (shuffle_step_spec i (q, unat w)))))"
proof -
  define t where "t = unat (mix (w + 0x9e3779b9))"
  define r where "r = nat \<lfloor>(of_nat t / 2 ^ 32 :: rat) * of_nat (256 - i)\<rfloor>"
  have t: "t < 2 ^ 32"
    unfolding t_def using unsigned_less[of "mix (w + 0x9e3779b9)", where ?'a = nat] by simp
  have c: "0 < 256 - i" "256 - i \<le> 256" using i by simp_all
  note d = draw_floor[OF t c, folded r_def]
  have r: "i + r < 256" using d(2) i by simp
  have sp: "shuffle_step_spec i (q, unat w) =
      (q[i := q ! (i + r), i + r := q ! i], unat (w + 0x9e3779b9))"
    by (simp add: shuffle_step_spec_def words_spec t_def r_def Let_def)
  have gi: "ta_get (enc q) (int i) = Some (of_nat (q ! i))"
    using i q by (simp add: ta_get_def length_enc enc_nth)
  have gr: "ta_get (enc q) (int i + int r) = Some (of_nat (q ! (i + r)))"
    using r q by (simp add: ta_get_def length_enc enc_nth nat_add_distrib)
  have set: "ta_set (ta_set (enc q) (int i + int r) (Some (of_nat (q ! i)))) (int i)
       (Some (of_nat (q ! (i + r)))) = enc (q[i := q ! (i + r), i + r := q ! i])"
    using i r q
    by (simp add: ta_set_def length_enc enc_update nat_add_distrib swap_order)
  have lt: "i < tableSize div 2 - 1" using i by (simp add: tableSize_def)
  have w: "(of_nat (unat (w + 0x9e3779b9)) :: 32 word) = w + 0x9e3779b9" by simp
  show ?thesis
    by (subst shuffle_loop.simps)
      (simp only: lt if_True splitmix32_words case_prod_conv Let_def t_def[symmetric]
        d(1) gi gr set sp fst_conv snd_conv w Suc_eq_plus1)
qed


lemma splitmix32_spec_state: "fst (splitmix32_spec a) < 2 ^ 32"
  by (simp only: splitmix32_spec_def Let_def fst_conv) simp

lemma shuffle_step_props:
  "length (fst (shuffle_step_spec i (q, a))) = length q"
  "snd (shuffle_step_spec i (q, a)) < 2 ^ 32"
proof -
  obtain a' u where s: "splitmix32_spec a = (a', u)" by (cases "splitmix32_spec a")
  with splitmix32_spec_state[of a] have "a' < 2 ^ 32" by simp
  then show "length (fst (shuffle_step_spec i (q, a))) = length q"
    "snd (shuffle_step_spec i (q, a)) < 2 ^ 32"
    by (simp_all add: shuffle_step_spec_def s Let_def)
qed

lemma shuffle_loop_closed:
  "i \<le> 255 \<Longrightarrow> length q = 256 \<Longrightarrow>
   shuffle_loop i (enc q) (of_int32 w) =
     (enc (fst (fold shuffle_step_spec [i..<255] (q, unat w))),
      of_int32 (of_nat (snd (fold shuffle_step_spec [i..<255] (q, unat w)))))"
proof (induction "255 - i" arbitrary: i q w)
  case 0
  then have "i = 255" by simp
  then show ?case by (subst shuffle_loop.simps) (simp add: tableSize_def)
next
  case (Suc n)
  have lt: "i < 255" using Suc.hyps(2) by simp
  define S where "S = shuffle_step_spec i (q, unat w)"
  have len: "length (fst S) = 256"
    unfolding S_def using Suc.prems(2) by (simp only: shuffle_step_props)
  have "snd S < 2 ^ LENGTH(32)"
    unfolding S_def using shuffle_step_props(2)[of i q "unat w"] by simp
  then have un: "unat (of_nat (snd S) :: 32 word) = snd S"
    by (simp only: unat_of_nat mod_less)
  have ih: "shuffle_loop (Suc i) (enc (fst S)) (of_int32 (of_nat (snd S))) =
     (enc (fst (fold shuffle_step_spec [Suc i..<255] (fst S, snd S))),
      of_int32 (of_nat (snd (fold shuffle_step_spec [Suc i..<255] (fst S, snd S)))))"
    using Suc.hyps(1)[of "Suc i" "fst S" "of_nat (snd S)"] Suc.hyps(2) lt len
    by (simp only: un)
  have u: "[i..<255] = i # [Suc i..<255]" using lt by (simp add: upt_conv_Cons)
  show ?case
    unfolding shuffle_loop_step[OF lt Suc.prems(2)] S_def[symmetric] ih u
    by (simp add: S_def)
qed

lemma shuffle_loop_raw:
  assumes "i < 255"
  shows "shuffle_loop i p a = shuffle_loop i p (of_int32 (to_int32 a))"
proof -
  have lt: "i < tableSize div 2 - 1" using assms by (simp add: tableSize_def)
  show ?thesis
    using shuffle_loop.simps[of i p a] shuffle_loop.simps[of i p "of_int32 (to_int32 a)"]
    by (simp only: lt if_True splitmix32_raw[of a, symmetric])
qed

lemma to_int32_integer: "unat (to_int32 (Fin (of_int z))) = nat (z mod 2 ^ 32)"
proof -
  have "uint (word_of_int z :: 32 word) = z mod 2 ^ LENGTH(32)" by (rule uint_word_of_int)
  moreover have "unat (word_of_int z :: 32 word) = nat (uint (word_of_int z :: 32 word))"
    by (rule unat_eq_nat_uint)
  ultimately have "unat (word_of_int z :: 32 word) = nat (z mod 2 ^ 32)" by simp
  then show ?thesis by (simp only: to_int32_of_int)
qed

lemma seed_shuffle_closed:
  "seed_shuffle k =
     (enc (fst (seed_spec (unat (to_int32 k)))),
      of_int32 (of_nat (snd (seed_spec (unat (to_int32 k))))))"
proof -
  have "seed_shuffle k = shuffle_loop 0 (enc [0..<256]) (of_int32 (to_int32 k))"
    unfolding seed_shuffle_def init_loop_enc by (rule shuffle_loop_raw) simp
  moreover have "length [0..<256] = 256" by simp
  ultimately show ?thesis
    by (simp only: shuffle_loop_closed seed_spec_def le0)
qed

text \<open>
  C3. For every number \<open>k\<close>, the first two loops of \<open>seed(k)\<close> leave in the
  working array what the specification describes: \<open>p[i] = i\<close> for \<open>i\<close> from 0
  to 255, then the 255 iterations \<open>i = 0, \<dots>, 254\<close>, each drawing
  \<open>r = i + floor(random() * (256 - i))\<close> and exchanging \<open>p[i]\<close> and \<open>p[r]\<close>; the
  product and the truncation by \<open>~~\<close> are exact. The generator has then been
  called 255 times, from the state \<open>k\<close> converted to 32 bits, which for an
  integer \<open>k\<close> is \<open>k\<close> modulo \<open>2 ^ 32\<close>. The upper 256 bytes of the array stay 0.
\<close>

theorem seed_shuffle_spec:
  "fst (seed_shuffle k) = map of_nat (fst (seed_spec (unat (to_int32 k)))) @ replicate 256 0 \<and>
   snd (seed_shuffle k) = of_int32 (of_nat (snd (seed_spec (unat (to_int32 k))))) \<and>
   unat (to_int32 (Fin (of_int z))) = nat (z mod 2 ^ 32)"
  by (simp only: seed_shuffle_closed enc_def to_int32_integer fst_conv snd_conv simp_thms)

lemma splitmix32_spec_draw:
  assumes "a < 2 ^ 32"
  obtains t where "t < 2 ^ 32" "snd (splitmix32_spec a) = of_nat t / 2 ^ 32"
proof -
  from assms have "a < 2 ^ LENGTH(32)" by simp
  then have a: "unat (of_nat a :: 32 word) = a" by (simp only: unat_of_nat mod_less)
  define t where "t = unat (mix ((of_nat a :: 32 word) + 0x9e3779b9))"
  have "t < 2 ^ LENGTH(32)" unfolding t_def by (rule unsigned_less)
  then have "t < 2 ^ 32" by simp
  moreover have "snd (splitmix32_spec a) = of_nat t / 2 ^ 32"
    using words_spec[of "of_nat a"] by (simp only: a t_def snd_conv)
  ultimately show ?thesis by (rule that)
qed

lemma shuffle_step_swap:
  assumes "i < 255" "a < 2 ^ 32" "length q = 256"
  obtains r where "i + r < 256" "fst (shuffle_step_spec i (q, a)) = q[i := q ! (i + r), i + r := q ! i]"
proof -
  obtain t where t: "t < 2 ^ 32" "snd (splitmix32_spec a) = of_nat t / 2 ^ 32"
    using splitmix32_spec_draw[OF assms(2)] by blast
  define r where "r = nat \<lfloor>(of_nat t / 2 ^ 32 :: rat) * of_nat (256 - i)\<rfloor>"
  have c: "0 < 256 - i" "256 - i \<le> 256" using assms(1) by simp_all
  have "r < 256 - i" unfolding r_def by (rule draw_floor(2)[OF t(1) c])
  then have "i + r < 256" by simp
  moreover obtain a' u where s: "splitmix32_spec a = (a', u)"
    by (cases "splitmix32_spec a")
  have u: "u = of_nat t / 2 ^ 32" using t(2) unfolding s snd_conv .
  have "fst (shuffle_step_spec i (q, a)) = q[i := q ! (i + r), i + r := q ! i]"
    by (simp only: shuffle_step_spec_def s u r_def case_prod_conv Let_def fst_conv)
  ultimately show ?thesis by (rule that)
qed

lemma shuffle_step_mset:
  assumes "i < 255" "a < 2 ^ 32" "length q = 256"
  shows "mset (fst (shuffle_step_spec i (q, a))) = mset q"
proof -
  obtain r where r: "i + r < 256"
    "fst (shuffle_step_spec i (q, a)) = q[i := q ! (i + r), i + r := q ! i]"
    using shuffle_step_swap[OF assms] by blast
  have "mset (q[i + r := q ! i, i := q ! (i + r)]) = mset q"
    using r(1) assms by (intro mset_swap) simp_all
  then show ?thesis by (simp only: r(2) swap_order[of q i "i + r"])
qed

lemma fold_shuffle_mset:
  assumes "n \<le> 255" "a < 2 ^ 32" "length q = 256"
  shows "mset (fst (fold shuffle_step_spec [0..<n] (q, a))) = mset q \<and>
    length (fst (fold shuffle_step_spec [0..<n] (q, a))) = 256 \<and>
    snd (fold shuffle_step_spec [0..<n] (q, a)) < 2 ^ 32"
  using assms(1)
proof (induction n)
  case 0
  then show ?case using assms by simp
next
  case (Suc n)
  define S where "S = fold shuffle_step_spec [0..<n] (q, a)"
  have ih: "mset (fst S) = mset q" "length (fst S) = 256" "snd S < 2 ^ 32"
    using Suc unfolding S_def by simp_all
  have n: "n < 255" using Suc.prems by simp
  have f: "fold shuffle_step_spec [0..<Suc n] (q, a) = shuffle_step_spec n (fst S, snd S)"
    by (simp add: S_def)
  show ?case
    unfolding f
    using shuffle_step_mset[OF n ih(3) ih(2)] ih shuffle_step_props[of n "fst S" "snd S"]
    by simp
qed

lemma seed_spec_perm:
  assumes "a < 2 ^ 32"
  shows "mset (fst (seed_spec a)) = mset [0..<256]" "length (fst (seed_spec a)) = 256"
  using fold_shuffle_mset[of 255 a "[0..<256]"] assms by (simp_all add: seed_spec_def)

lemma src_byte_enc:
  assumes "length q = 256" "n < 512"
  shows "src_byte (enc q) n = of_nat (q ! (n mod 256))"
proof -
  have m: "n mod 256 < 256" by simp
  have "ta_get (enc q) (int (n mod 256)) = Some (of_nat (q ! (n mod 256)))"
    using assms(1) m by (simp add: ta_get_def length_enc enc_nth)
  then show ?thesis by (simp only: src_byte_def and255 option.case)
qed

text \<open>The tables after seeding, entry by entry.\<close>

lemma seed_entries:
  assumes "length (perm T) = 512" "length (permMod12 T) = 512" "n < 512"
  shows "perm (seed k T) ! n = of_nat (fst (seed_spec (unat (to_int32 k))) ! (n mod 256))"
    and "permMod12 (seed k T) ! n =
      of_nat (fst (seed_spec (unat (to_int32 k))) ! (n mod 256)) mod 12"
proof -
  have a: "unat (to_int32 k) < 2 ^ 32"
    using unsigned_less[of "to_int32 k", where ?'a = nat] by simp
  have p: "fst (seed_shuffle k) = enc (fst (seed_spec (unat (to_int32 k))))"
    by (simp only: seed_shuffle_closed fst_conv)
  note l = seed_spec_perm(2)[OF a]
  show "perm (seed k T) ! n = of_nat (fst (seed_spec (unat (to_int32 k))) ! (n mod 256))"
    using assms(3) by (simp add: seed_closed[OF assms(1,2)] p src_byte_enc[OF l] del: upt_Suc)
  show "permMod12 (seed k T) ! n =
      of_nat (fst (seed_spec (unat (to_int32 k))) ! (n mod 256)) mod 12"
    using assms(3) by (simp add: seed_closed[OF assms(1,2)] p src_byte_enc[OF l] del: upt_Suc)
qed

text \<open>
  C5. After \<open>seed(k)\<close>, whatever the tables held before, the first 256 entries
  of \<open>perm\<close> are a permutation of 0, \<dots>, 255: each of these values occurs
  exactly once among them.
\<close>

theorem seed_perm_permutation:
  assumes "length (perm T) = 512" "length (permMod12 T) = 512"
  shows "mset (map unat (take 256 (perm (seed k T)))) = mset [0..<256] \<and>
    (\<forall>v<256. count_list (map unat (take 256 (perm (seed k T)))) v = 1)"
proof -
  define q where "q = fst (seed_spec (unat (to_int32 k)))"
  have a: "unat (to_int32 k) < 2 ^ 32"
    using unsigned_less[of "to_int32 k", where ?'a = nat] by simp
  have q: "mset q = mset [0..<256]" "length q = 256"
    unfolding q_def using seed_spec_perm[OF a] by simp_all
  have lp: "length (perm (seed k T)) = 512"
    by (simp add: seed_closed[OF assms] del: upt_Suc)
  have "take 256 (perm (seed k T)) = map of_nat q"
  proof (rule nth_equalityI)
    show "length (take 256 (perm (seed k T))) = length (map of_nat q)"
      using lp q(2) by simp
    fix n assume "n < length (take 256 (perm (seed k T)))"
    then have n: "n < 256" by simp
    then show "take 256 (perm (seed k T)) ! n = map of_nat q ! n"
      using seed_entries(1)[OF assms, of n k] q(2) by (simp add: q_def)
  qed
  moreover have "map unat (map of_nat q :: 8 word list) = q"
  proof -
    have "map unat (map of_nat q :: 8 word list) = map (\<lambda>x. unat (of_nat x :: 8 word)) q"
      by (simp add: comp_def)
    also have "\<dots> = q"
    proof (rule map_idI)
      fix x assume "x \<in> set q"
      then have "x \<in> set [0..<256]" using q(1) by (metis set_mset_mset)
      then have "x < 2 ^ LENGTH(8)" by simp
      then show "unat (of_nat x :: 8 word) = x" by (simp only: unat_of_nat mod_less)
    qed
    finally show ?thesis .
  qed
  ultimately have e: "map unat (take 256 (perm (seed k T))) = q" by simp
  have "count_list q v = 1" if "v < 256" for v
  proof -
    have "count_list q v = count (mset q) v" by (simp add: count_mset)
    also have "\<dots> = count (mset [0..<256]) v" by (simp only: q(1))
    also have "\<dots> = (if v \<in> set [0..<256] then 1 else 0)"
      by (rule distinct_upt[of 0 256, unfolded distinct_count_atmost_1, rule_format])
    also have "\<dots> = 1" using that by simp
    finally show ?thesis .
  qed
  then show ?thesis by (simp add: e q(1))
qed

theorem seed_perm_permutation_witness:
  "mset (map unat (take 256 (perm (seed (Fin 1337) initial_tables)))) = mset [0..<256] \<and>
   count_list (map unat (take 256 (perm (seed (Fin 1337) initial_tables)))) 200 = 1"
proof -
  have h: "length (perm initial_tables) = 512" "length (permMod12 initial_tables) = 512"
    by (simp_all add: initial_tables_def tableSize_def)
  note t = seed_perm_permutation[OF h, of "Fin 1337"]
  from t have a: "mset (map unat (take 256 (perm (seed (Fin 1337) initial_tables)))) =
      mset [0..<256]" by (rule conjunct1)
  from t have b: "\<forall>v<256. count_list
      (map unat (take 256 (perm (seed (Fin 1337) initial_tables)))) v = 1" by (rule conjunct2)
  show ?thesis
    using a b[rule_format, of 200] by simp
qed

section \<open>Following values through the shuffle\<close>

lemma shuffle_step_draw:
  assumes "i < 255"
  shows "shuffle_step_spec i (q, unat a) =
     (q[i := q ! draw_index i (a + 0x9e3779b9), draw_index i (a + 0x9e3779b9) := q ! i],
      unat (a + 0x9e3779b9))"
    and "draw_index i (a + 0x9e3779b9) < 256"
proof -
  define t where "t = unat (mix (a + 0x9e3779b9))"
  have t: "t < 2 ^ 32"
    unfolding t_def using unsigned_less[of "mix (a + 0x9e3779b9)", where ?'a = nat] by simp
  have c: "0 < 256 - i" "256 - i \<le> 256" using assms by simp_all
  have fl: "\<lfloor>(of_nat (t * (256 - i)) :: rat) / 2 ^ 32\<rfloor> = int (t * (256 - i) div 2 ^ 32)"
    using floor_divide_of_nat_eq[of "t * (256 - i)" "2 ^ 32", where ?'a = rat] by simp
  have e: "(of_nat t / 2 ^ 32 :: rat) * of_nat (256 - i) = of_nat (t * (256 - i)) / 2 ^ 32"
    by simp
  have r: "nat \<lfloor>(of_nat t / 2 ^ 32 :: rat) * of_nat (256 - i)\<rfloor> = t * (256 - i) div 2 ^ 32"
    unfolding e fl by simp
  show "shuffle_step_spec i (q, unat a) =
     (q[i := q ! draw_index i (a + 0x9e3779b9), draw_index i (a + 0x9e3779b9) := q ! i],
      unat (a + 0x9e3779b9))"
    by (simp only: shuffle_step_spec_def words_spec case_prod_conv Let_def t_def[symmetric] r
        draw_index_def)
  have "nat \<lfloor>(of_nat t / 2 ^ 32 :: rat) * of_nat (256 - i)\<rfloor> < 256 - i"
    by (rule draw_floor(2)[OF t c])
  then have "t * (256 - i) div 2 ^ 32 < 256 - i" by (simp only: r)
  then show "draw_index i (a + 0x9e3779b9) < 256"
    unfolding draw_index_def t_def[symmetric] using assms by simp
qed

lemma move_swap:
  assumes "i < length q" "r < length q" "p < length q"
  shows "q[i := q ! r, r := q ! i] ! move i r p = q ! p" and "move i r p < length q"
  using assms by (auto simp: move_def nth_list_update)

lemma track_fold:
  assumes "i + n \<le> 255" "length q = 256" "\<forall>p\<in>set ps. p < 256"
  shows "map (\<lambda>p. fst (fold shuffle_step_spec [i..<i + n] (q, unat a)) ! p) (track n i a ps) =
    map (\<lambda>p. q ! p) ps"
  using assms
proof (induction n arbitrary: i a q ps)
  case 0
  then show ?case by simp
next
  case (Suc n)
  define r where "r = draw_index i (a + 0x9e3779b9)"
  define q' where "q' = q[i := q ! r, r := q ! i]"
  have i: "i < 255" using Suc.prems(1) by simp
  note d = shuffle_step_draw(1)[OF i, where q = q and a = a, folded r_def, folded q'_def]
    shuffle_step_draw(2)[OF i, where a = a, folded r_def]
  have u: "[i..<i + Suc n] = i # [Suc i..<Suc i + n]"
    by (simp add: upt_conv_Cons)
  have f: "fold shuffle_step_spec [i..<i + Suc n] (q, unat a) =
      fold shuffle_step_spec [Suc i..<Suc i + n] (q', unat (a + 0x9e3779b9))"
    by (simp only: u fold_simps d(1))
  have ps': "\<forall>p\<in>set (map (move i r) ps). p < 256"
    using Suc.prems(2,3) i d(2) move_swap(2)[of i q r] by auto
  have ih: "map (\<lambda>p. fst (fold shuffle_step_spec [Suc i..<Suc i + n] (q', unat (a + 0x9e3779b9))) ! p)
       (track n (Suc i) (a + 0x9e3779b9) (map (move i r) ps)) =
     map (\<lambda>p. q' ! p) (map (move i r) ps)"
    using Suc.prems(1,2) ps' by (intro Suc.IH) (simp_all add: q'_def)
  have "map (\<lambda>p. q' ! p) (map (move i r) ps) = map (\<lambda>p. q ! p) ps"
    using Suc.prems(2,3) i d(2) move_swap(1)[of i q r] by (auto simp: q'_def)
  then show ?case
    unfolding f using ih by (simp add: r_def)
qed

lemma track_seed_spec:
  assumes "\<forall>p\<in>set ps. p < 256"
  shows "map (\<lambda>p. fst (seed_spec (unat a)) ! p) (track 255 0 a ps) = ps"
proof -
  have "map (\<lambda>p. fst (fold shuffle_step_spec [0..<0 + 255] ([0..<256], unat a)) ! p) (track 255 0 a ps) =
      map (\<lambda>p. [0..<256] ! p) ps"
    using assms by (intro track_fold) simp_all
  moreover have "map (\<lambda>p. [0..<256] ! p) ps = ps"
    using assms by (intro map_idI) simp
  ultimately show ?thesis by (simp add: seed_spec_def)
qed


lemma track_numeral:
  "track (numeral k) i a ps =
     track (pred_numeral k) (i + 1) (a + 0x9e3779b9)
       (map (move i (draw_index i (a + 0x9e3779b9))) ps)"
  by (simp add: numeral_eq_Suc)

lemma track_1337: "track 255 0 1337 [73, 109, 17, 27] = [0, 1, 74, 111]"
  by (simp add: track_numeral mix_def draw_index_def move_def Let_def)

text \<open>The two hashes \<open>noise\<close> uses at the point (1, 0) after \<open>seed(1337)\<close>.\<close>

lemma seed_1337_hashes:
  "hash_at (seed (Fin 1337) initial_tables) 1 0 = Some 5"
  "hash_at (seed (Fin 1337) initial_tables) (1 + 1) (0 + 1) = Some 3"
proof -
  let ?T = "seed (Fin 1337) initial_tables"
  have h: "length (perm initial_tables) = 512" "length (permMod12 initial_tables) = 512"
    by (simp_all add: initial_tables_def tableSize_def)
  have l: "length (perm ?T) = 512" "length (permMod12 ?T) = 512"
    by (simp_all add: seed_closed[OF h] del: upt_Suc)
  have k: "unat (to_int32 (Fin 1337)) = 1337" by simp
  have ps: "\<forall>p\<in>set [73, 109, 17, 27]. p < (256::nat)" by simp
  have "map (\<lambda>p. fst (seed_spec (unat (1337 :: 32 word))) ! p) [0, 1, 74, 111] = [73, 109, 17, 27]"
    using track_seed_spec[OF ps, of 1337] by (simp only: track_1337)
  then have q: "fst (seed_spec 1337) ! 0 = 73" "fst (seed_spec 1337) ! Suc 0 = 109"
    "fst (seed_spec 1337) ! 74 = 17" "fst (seed_spec 1337) ! 111 = 27"
    by simp_all
  have e: "perm ?T ! 0 = 73" "perm ?T ! Suc 0 = 109"
    using seed_entries(1)[OF h, of 0 "Fin 1337"] seed_entries(1)[OF h, of 1 "Fin 1337"]
    by (simp_all add: k q)
  have m: "permMod12 ?T ! 74 = 5" "permMod12 ?T ! 111 = 3"
    using seed_entries(2)[OF h, of 74 "Fin 1337"] seed_entries(2)[OF h, of 111 "Fin 1337"]
    by (simp_all add: k q)
  show "hash_at ?T 1 0 = Some 5"
    by (simp add: hash_at_def ta_get_def l e m)
  show "hash_at ?T (1 + 1) (0 + 1) = Some 3"
    by (simp add: hash_at_def ta_get_def l e m)
qed

section \<open>Masks, gradients and table reads\<close>

lemma sint_and_numeral:
  assumes "0 \<le> c" "c < 2 ^ 31"
  shows "sint ((word_of_int z :: 32 word) AND word_of_int c) = z AND c"
proof -
  have "0 \<le> z AND c" using assms(1) by (simp add: and_nonnegative_int_iff)
  moreover have "z AND c \<le> c" using assms(1) by (rule AND_upper2)
  ultimately show ?thesis
    using assms(2) by (simp add: word_wi_log_defs sint_small)
qed

lemma grad_h: "sint ((word_of_int hash :: 32 word) AND 0x0F) = hash AND 0xF"
  using sint_and_numeral[of 15 hash] by simp

lemma mask255_eq: "mask255 i = uint (to_int32 i) AND 255"
  using sint_and_numeral[of 255 "uint (to_int32 i)"] by (simp add: mask255_def)


lemma mask255_int:
  assumes "0 \<le> z" "z \<le> 255"
  shows "mask255 (Fin (of_int z)) = z"
proof -
  have "uint (word_of_int z :: 32 word) = z mod 2 ^ LENGTH(32)" by (rule uint_word_of_int)
  then have u: "uint (word_of_int z :: 32 word) = z" using assms by simp
  have "z AND 255 = take_bit 8 z" by (simp add: take_bit_eq_mask mask_eq_exp_minus_1)
  also have "\<dots> = z" using assms by (simp add: take_bit_int_eq_self)
  finally show ?thesis by (simp only: mask255_eq to_int32_of_int u)
qed

lemma grad_value:
  "grad hash x y =
     (let h = hash AND 0xF;
          u = (if h < 8 then x else y);
          v = (if h < 4 then y else Fin 0)
      in fadd (if \<not> bit h 0 then u else fneg u) (if \<not> bit h 1 then v else fneg v))"
proof -
  have b0: "(h AND 1 = 0) = (\<not> bit h 0)" for h :: int
    using and_exp_eq_0_iff_not_bit[of h 0] by simp
  have b1: "(h AND 2 = 0) = (\<not> bit h 1)" for h :: int
    using and_exp_eq_0_iff_not_bit[of h 1] by simp
  show ?thesis
    by (simp only: grad_def grad_h b0 b1)
qed

text \<open>
  C9. For every integer hash and all numbers \<open>x\<close> and \<open>y\<close>, \<open>grad\<close> returns what
  the specification describes: with \<open>h\<close> the hash masked by \<open>0xF\<close>, \<open>u\<close> is \<open>x\<close>
  if \<open>h < 8\<close> and \<open>y\<close> otherwise, \<open>v\<close> is \<open>y\<close> if \<open>h < 4\<close> and 0 otherwise, and
  the result is \<open>u\<close>, negated if bit 0 of \<open>h\<close> is set, plus \<open>v\<close>, negated if bit 1
  of \<open>h\<close> is set.
\<close>

theorem grad_refines_spec: "grad hash x y = grad_spec hash x y"
  by (simp only: grad_value grad_spec_def)




text \<open>
  C7. With \<open>octaves\<close> 0 the loop of \<open>fbm\<close> is not entered: for all coordinates and
  parameters \<open>fbm\<close> returns, and returns the number 0 its total starts from.
\<close>

theorem fbm_zero_octaves:
  "fbm T x y (Fin 0) amplitude frequency persistence lacunarity = Some (Fin 0)"
  unfolding fbm_def by (subst fbm_loop.simps) (simp add: flt_def)

section \<open>One octave\<close>

lemma fbm_single_pass:
  "fbm T x y (Fin 1) amplitude frequency persistence lacunarity =
     Some (fadd (Fin 0) (fmul (noise T (fmul x frequency) (fmul y frequency)) amplitude))"
proof -
  have a: "flt (Fin 0) (Fin 1)" by (simp add: flt_def)
  have b: "\<not> flt (Fin 1) (Fin 1)" by (simp add: flt_def)
  show ?thesis
    unfolding fbm_def
    by (subst fbm_loop.simps, simp only: a if_True fadd_zero_one)
      (subst fbm_loop.simps, simp only: b if_False)
qed

text \<open>
  C8. With \<open>octaves\<close> 1, for all coordinates and parameters and in every state
  of the tables, \<open>fbm\<close> returns \<open>0 + noise(x * frequency, y * frequency) * amplitude\<close>.
  This is the product itself unless the product is the negative zero, for
  which \<open>fbm\<close> returns the positive zero; and the value returned is \<open>==\<close> to
  the product unless the product is NaN.
\<close>

theorem fbm_one_octave_value:
  "fbm T x y (Fin 1) amplitude frequency persistence lacunarity =
     Some (if fmul (noise T (fmul x frequency) (fmul y frequency)) amplitude = NZero then Fin 0
           else fmul (noise T (fmul x frequency) (fmul y frequency)) amplitude) \<and>
   feq (if fmul (noise T (fmul x frequency) (fmul y frequency)) amplitude = NZero then Fin 0
        else fmul (noise T (fmul x frequency) (fmul y frequency)) amplitude)
       (fmul (noise T (fmul x frequency) (fmul y frequency)) amplitude) =
     (fmul (noise T (fmul x frequency) (fmul y frequency)) amplitude \<noteq> NaN)"
proof -
  define p where "p = fmul (noise T (fmul x frequency) (fmul y frequency)) amplitude"
  have "fadd (Fin 0) p = (if p = NZero then Fin 0 else p)"
    unfolding p_def by (rule fadd_zero_left) (rule fmul_is_double)
  moreover have "feq (if p = NZero then Fin 0 else p) p = (p \<noteq> NaN)"
    by (cases p) (simp_all add: feq_def)
  ultimately show ?thesis
    unfolding fbm_single_pass p_def[symmetric] by simp
qed

section \<open>Noise at the lattice point (1, 0)\<close>

lemma noise_lattice_eval:
  assumes g0: "hash_at T 1 0 = Some 5" and g2: "hash_at T (1 + 1) (0 + 1) = Some 3"
  shows "noise T (Fin 1) (Fin 0) = Fin (- (2451925737007459 / 9007199254740992))"
proof -
  have c1: "fadd (Fin 1) (Fin 0) = Fin 1"
    by (simp add: fadd_def fsub_def fmul_def fdiv_def)
      (rule fround_near[where k = 52 and m = 4503599627370496]; simp)
  have c2: "fmul (Fin 1) (Fin (1648431872091733 / 4503599627370496)) =
      Fin (1648431872091733 / 4503599627370496)"
    by (simp add: fadd_def fsub_def fmul_def fdiv_def)
      (rule fround_near[where k = 54 and m = 6593727488366932]; simp)
  have c3: "fadd (Fin 1) (Fin (1648431872091733 / 4503599627370496)) =
      Fin (6152031499462229 / 4503599627370496)"
    by (simp add: fadd_def fsub_def fmul_def fdiv_def)
      (rule fround_near[where k = 52 and m = 6152031499462229]; simp)
  have c4: "ffloor (Fin (6152031499462229 / 4503599627370496)) = Fin 1"
    using floor_unique[of "1" "6152031499462229 / 4503599627370496 :: rat"] by simp
  have c5: "fadd (Fin 0) (Fin (1648431872091733 / 4503599627370496)) =
      Fin (1648431872091733 / 4503599627370496)"
    by (simp add: fadd_def fsub_def fmul_def fdiv_def)
      (rule fround_near[where k = 54 and m = 6593727488366932]; simp)
  have c6: "ffloor (Fin (1648431872091733 / 4503599627370496)) = Fin 0"
    using floor_unique[of "0" "1648431872091733 / 4503599627370496 :: rat"] by simp
  have c7: "fmul (Fin 1) (Fin (951722585092921 / 4503599627370496)) =
      Fin (951722585092921 / 4503599627370496)"
    by (simp add: fadd_def fsub_def fmul_def fdiv_def)
      (rule fround_near[where k = 55 and m = 7613780680743368]; simp)
  have c8: "fsub (Fin 1) (Fin (951722585092921 / 4503599627370496)) =
      Fin (3551877042277575 / 4503599627370496)"
    by (simp add: fadd_def fsub_def fmul_def fdiv_def)
      (rule fround_near[where k = 53 and m = 7103754084555150]; simp)
  have c9: "fsub (Fin 1) (Fin (3551877042277575 / 4503599627370496)) =
      Fin (951722585092921 / 4503599627370496)"
    by (simp add: fadd_def fsub_def fmul_def fdiv_def)
      (rule fround_near[where k = 55 and m = 7613780680743368]; simp)
  have c10: "fsub (Fin 0) (Fin (951722585092921 / 4503599627370496)) =
      Fin (- (951722585092921 / 4503599627370496))"
    by (simp add: fadd_def fsub_def fmul_def fdiv_def)
      (rule fround_near[where k = 55 and m = 7613780680743368]; simp)
  have c11: "fsub (Fin 0) (Fin (- (951722585092921 / 4503599627370496))) =
      Fin (951722585092921 / 4503599627370496)"
    by (simp add: fadd_def fsub_def fmul_def fdiv_def)
      (rule fround_near[where k = 55 and m = 7613780680743368]; simp)
  have c12: "fgt (Fin (951722585092921 / 4503599627370496))
        (Fin (951722585092921 / 4503599627370496)) =
      False"
    by (simp add: flt_def fgt_def)
  have c13: "fsub (Fin (951722585092921 / 4503599627370496)) (Fin 0) =
      Fin (951722585092921 / 4503599627370496)"
    by (simp add: fadd_def fsub_def fmul_def fdiv_def)
      (rule fround_near[where k = 55 and m = 7613780680743368]; simp)
  have c14: "fadd (Fin (951722585092921 / 4503599627370496))
        (Fin (951722585092921 / 4503599627370496)) =
      Fin (951722585092921 / 2251799813685248)"
    by (simp add: fadd_def fsub_def fmul_def fdiv_def)
      (rule fround_near[where k = 54 and m = 7613780680743368]; simp)
  have c15: "fsub (Fin (951722585092921 / 4503599627370496)) (Fin 1) =
      Fin (- (3551877042277575 / 4503599627370496))"
    by (simp add: fadd_def fsub_def fmul_def fdiv_def)
      (rule fround_near[where k = 53 and m = 7103754084555150]; simp)
  have c16: "fadd (Fin (- (3551877042277575 / 4503599627370496)))
        (Fin (951722585092921 / 4503599627370496)) =
      Fin (- (1300077228592327 / 2251799813685248))"
    by (simp add: fadd_def fsub_def fmul_def fdiv_def)
      (rule fround_near[where k = 53 and m = 5200308914369308]; simp)
  have c17: "fmul (Fin 2) (Fin (951722585092921 / 4503599627370496)) =
      Fin (951722585092921 / 2251799813685248)"
    by (simp add: fadd_def fsub_def fmul_def fdiv_def)
      (rule fround_near[where k = 54 and m = 7613780680743368]; simp)
  have c18: "fadd (Fin (- (3551877042277575 / 4503599627370496)))
        (Fin (951722585092921 / 2251799813685248)) =
      Fin (- (1648431872091733 / 4503599627370496))"
    by (simp add: fadd_def fsub_def fmul_def fdiv_def)
      (rule fround_near[where k = 54 and m = 6593727488366932]; simp)
  have c19: "mask255 (Fin 1) = 1"
    using mask255_int[of 1] by simp
  have c20: "mask255 (Fin 0) = 0"
    using mask255_int[of 0] by simp
  have c21: "fmul (Fin (951722585092921 / 4503599627370496))
        (Fin (951722585092921 / 4503599627370496)) =
      Fin (6435924710330825 / 144115188075855872)"
    by (simp add: fadd_def fsub_def fmul_def fdiv_def)
      (rule fround_near[where k = 57 and m = 6435924710330825]; simp)
  have c22: "fsub (Fin (1 / 2)) (Fin (6435924710330825 / 144115188075855872)) =
      Fin (8202708665949639 / 18014398509481984)"
    by (simp add: fadd_def fsub_def fmul_def fdiv_def)
      (rule fround_near[where k = 54 and m = 8202708665949639]; simp)
  have c23: "fsub (Fin (8202708665949639 / 18014398509481984))
        (Fin (6435924710330825 / 144115188075855872)) =
      Fin (3699109038579143 / 9007199254740992)"
    by (simp add: fadd_def fsub_def fmul_def fdiv_def)
      (rule fround_near[where k = 54 and m = 7398218077158286]; simp)
  have c24: "flt (Fin (3699109038579143 / 9007199254740992)) (Fin 0) = False"
    by (simp add: flt_def fgt_def)
  have c25: "fmul (Fin (3699109038579143 / 9007199254740992))
        (Fin (3699109038579143 / 9007199254740992)) =
      Fin (6076653704355689 / 36028797018963968)"
    by (simp add: fadd_def fsub_def fmul_def fdiv_def)
      (rule fround_near[where k = 55 and m = 6076653704355689]; simp)
  have c26: "fmul (Fin (6076653704355689 / 36028797018963968))
        (Fin (6076653704355689 / 36028797018963968)) =
      Fin (1024894620356701 / 36028797018963968)"
    by (simp add: fadd_def fsub_def fmul_def fdiv_def)
      (rule fround_near[where k = 58 and m = 8199156962853608]; simp)
  have c27: "fadd (Fin (- (951722585092921 / 4503599627370496))) (Fin 0) =
      Fin (- (951722585092921 / 4503599627370496))"
    by (simp add: fadd_def fsub_def fmul_def fdiv_def)
      (rule fround_near[where k = 55 and m = 7613780680743368]; simp)
  have c28: "grad 5 (Fin (951722585092921 / 4503599627370496))
        (Fin (951722585092921 / 4503599627370496)) =
      Fin (- (951722585092921 / 4503599627370496))"
    by (simp add: grad_value c27)
  have c29: "fmul (Fin (1024894620356701 / 36028797018963968))
        (Fin (- (951722585092921 / 4503599627370496))) =
      Fin (- (6930742966444167 / 1152921504606846976))"
    by (simp add: fadd_def fsub_def fmul_def fdiv_def)
      (rule fround_near[where k = 60 and m = 6930742966444167]; simp)
  have c30: "fmul (Fin (951722585092921 / 2251799813685248))
        (Fin (951722585092921 / 2251799813685248)) =
      Fin (6435924710330825 / 36028797018963968)"
    by (simp add: fadd_def fsub_def fmul_def fdiv_def)
      (rule fround_near[where k = 55 and m = 6435924710330825]; simp)
  have c31: "fsub (Fin (1 / 2)) (Fin (6435924710330825 / 36028797018963968)) =
      Fin (1447309224893895 / 4503599627370496)"
    by (simp add: fadd_def fsub_def fmul_def fdiv_def)
      (rule fround_tie[where k = 54 and f = 5789236899575579 and m = 5789236899575580]; simp)
  have c32: "fmul (Fin (- (1300077228592327 / 2251799813685248)))
        (Fin (- (1300077228592327 / 2251799813685248))) =
      Fin (6004799503160661 / 18014398509481984)"
    by (simp add: fadd_def fsub_def fmul_def fdiv_def)
      (rule fround_near[where k = 54 and m = 6004799503160661]; simp)
  have c33: "fsub (Fin (1447309224893895 / 4503599627370496))
        (Fin (6004799503160661 / 18014398509481984)) =
      Fin (- (215562603585081 / 18014398509481984))"
    by (simp add: fadd_def fsub_def fmul_def fdiv_def)
      (rule fround_near[where k = 59 and m = 6898003314722592]; simp)
  have c34: "flt (Fin (- (215562603585081 / 18014398509481984))) (Fin 0) = True"
    by (simp add: flt_def fgt_def)
  have c35: "fmul (Fin (- (1648431872091733 / 4503599627370496)))
        (Fin (- (1648431872091733 / 4503599627370496))) =
      Fin (4826943532748117 / 36028797018963968)"
    by (simp add: fadd_def fsub_def fmul_def fdiv_def)
      (rule fround_near[where k = 55 and m = 4826943532748117]; simp)
  have c36: "fsub (Fin (1 / 2)) (Fin (4826943532748117 / 36028797018963968)) =
      Fin (3296863744183467 / 9007199254740992)"
    by (simp add: fadd_def fsub_def fmul_def fdiv_def)
      (rule fround_tie[where k = 54 and f = 6593727488366933 and m = 6593727488366934]; simp)
  have c37: "fsub (Fin (3296863744183467 / 9007199254740992))
        (Fin (4826943532748117 / 36028797018963968)) =
      Fin (8360511443985751 / 36028797018963968)"
    by (simp add: fadd_def fsub_def fmul_def fdiv_def)
      (rule fround_near[where k = 55 and m = 8360511443985751]; simp)
  have c38: "flt (Fin (8360511443985751 / 36028797018963968)) (Fin 0) = False"
    by (simp add: flt_def fgt_def)
  have c39: "fmul (Fin (8360511443985751 / 36028797018963968))
        (Fin (8360511443985751 / 36028797018963968)) =
      Fin (7760253729062939 / 144115188075855872)"
    by (simp add: fadd_def fsub_def fmul_def fdiv_def)
      (rule fround_near[where k = 57 and m = 7760253729062939]; simp)
  have c40: "fmul (Fin (7760253729062939 / 144115188075855872))
        (Fin (7760253729062939 / 144115188075855872)) =
      Fin (3342966899934921 / 1152921504606846976)"
    by (simp add: fadd_def fsub_def fmul_def fdiv_def)
      (rule fround_near[where k = 61 and m = 6685933799869842]; simp)
  have c41: "fadd (Fin (1648431872091733 / 4503599627370496))
        (Fin (1648431872091733 / 4503599627370496)) =
      Fin (1648431872091733 / 2251799813685248)"
    by (simp add: fadd_def fsub_def fmul_def fdiv_def)
      (rule fround_near[where k = 53 and m = 6593727488366932]; simp)
  have c42: "grad 3 (Fin (- (1648431872091733 / 4503599627370496)))
        (Fin (- (1648431872091733 / 4503599627370496))) =
      Fin (1648431872091733 / 2251799813685248)"
    by (simp add: grad_value c41)
  have c43: "fmul (Fin (3342966899934921 / 1152921504606846976))
        (Fin (1648431872091733 / 2251799813685248)) =
      Fin (2447221618773385 / 1152921504606846976)"
    by (simp add: fadd_def fsub_def fmul_def fdiv_def)
      (rule fround_near[where k = 61 and m = 4894443237546770]; simp)
  have c44: "fadd (Fin (- (6930742966444167 / 1152921504606846976))) (Fin 0) =
      Fin (- (6930742966444167 / 1152921504606846976))"
    by (simp add: fadd_def fsub_def fmul_def fdiv_def)
      (rule fround_near[where k = 60 and m = 6930742966444167]; simp)
  have c45: "fadd (Fin (- (6930742966444167 / 1152921504606846976)))
        (Fin (2447221618773385 / 1152921504606846976)) =
      Fin (- (2241760673835391 / 576460752303423488))"
    by (simp add: fadd_def fsub_def fmul_def fdiv_def)
      (rule fround_near[where k = 61 and m = 8967042695341564]; simp)
  have c46: "fmul (Fin 70) (Fin (- (2241760673835391 / 576460752303423488))) =
      Fin (- (2451925737007459 / 9007199254740992))"
    by (simp add: fadd_def fsub_def fmul_def fdiv_def)
      (rule fround_near[where k = 54 and m = 4903851474014918]; simp)
  have hn: "hash_number (Some 5) = 5" "hash_number (Some 3) = 3"
    by (simp_all add: hash_number_def)
  show ?thesis
    unfolding noise_def
    by (simp only: Let_def F2_G2_value c1 c2 c3 c4 c5 c6 c7 c8 c9 c10 c11 c12 c13 c14 c15 c16 c17 c18 c19 c20 
        c21 c22 c23 c24 c25 c26 c27 c28 c29 c30 c31 c32 c33 c34 c35 c36 c37 
        c38 c39 c40 c41 c42 c43 c44 c45 c46
        g0 g2 hn if_True if_False case_prod_conv of_int_0 of_int_1)
qed

text \<open>
  C1. After \<open>seed(1337)\<close> on the tables as the module creates them, \<open>noise(1, 0)\<close>
  is \<open>- 2451925737007459 / 2 ^ 53\<close>, about \<open>- 0.2722\<close>, and not 0: the value at
  a point with integer coordinates need not be 0.
\<close>

theorem noise_1_0_seed_1337:
  "noise (seed (Fin 1337) initial_tables) (Fin 1) (Fin 0) =
     Fin (- (2451925737007459 / 9007199254740992)) \<and>
   \<not> feq (noise (seed (Fin 1337) initial_tables) (Fin 1) (Fin 0)) (Fin 0)"
  by (simp add: noise_lattice_eval[OF seed_1337_hashes] feq_def)

section \<open>Noise at the origin and at NaN\<close>

lemma grad_origin:
  "grad h (Fin 0) (Fin 0) = Fin 0 \<or> grad h (Fin 0) (Fin 0) = NZero"
  by (simp add: grad_value Let_def fadd_def mk_zero_def)

lemma corner_origin:
  "fadd (fmul (Fin (1 / 16)) (grad h (Fin 0) (Fin 0))) (Fin 0) = Fin 0"
  using grad_origin[of h]
  by (auto simp: fmul_def fadd_def fround_zero mk_zero_def)

lemma noise_origin: "noise T (Fin 0) (Fin 0) = Fin 0"
proof -
  have o1: "fadd (Fin 0) (Fin 0) = Fin 0"
    by (simp add: fadd_def fsub_def fmul_def fdiv_def fround_zero mk_zero_def)
  have o2: "fmul (Fin 0) (Fin (1648431872091733 / 4503599627370496)) = Fin 0"
    by (simp add: fadd_def fsub_def fmul_def fdiv_def fround_zero mk_zero_def)
  have o3: "ffloor (Fin 0) = Fin 0"
    using floor_unique[of "0" "0 :: rat"] by simp
  have o4: "fmul (Fin 0) (Fin (951722585092921 / 4503599627370496)) = Fin 0"
    by (simp add: fadd_def fsub_def fmul_def fdiv_def fround_zero mk_zero_def)
  have o5: "fsub (Fin 0) (Fin 0) = Fin 0"
    by (simp add: fadd_def fsub_def fmul_def fdiv_def fround_zero mk_zero_def)
  have o6: "fgt (Fin 0) (Fin 0) = False"
    by (simp add: flt_def fgt_def)
  have o7: "fadd (Fin 0) (Fin (951722585092921 / 4503599627370496)) =
      Fin (951722585092921 / 4503599627370496)"
    by (simp add: fadd_def fsub_def fmul_def fdiv_def)
      (rule fround_near[where k = 55 and m = 7613780680743368]; simp)
  have o8: "fsub (Fin 0) (Fin 1) = Fin (- 1)"
    by (simp add: fadd_def fsub_def fmul_def fdiv_def)
      (rule fround_near[where k = 52 and m = 4503599627370496]; simp)
  have o9: "fadd (Fin (- 1)) (Fin (951722585092921 / 4503599627370496)) =
      Fin (- (3551877042277575 / 4503599627370496))"
    by (simp add: fadd_def fsub_def fmul_def fdiv_def)
      (rule fround_near[where k = 53 and m = 7103754084555150]; simp)
  have o10: "fmul (Fin 2) (Fin (951722585092921 / 4503599627370496)) =
      Fin (951722585092921 / 2251799813685248)"
    by (simp add: fadd_def fsub_def fmul_def fdiv_def)
      (rule fround_near[where k = 54 and m = 7613780680743368]; simp)
  have o11: "fadd (Fin (- 1)) (Fin (951722585092921 / 2251799813685248)) =
      Fin (- (1300077228592327 / 2251799813685248))"
    by (simp add: fadd_def fsub_def fmul_def fdiv_def)
      (rule fround_near[where k = 53 and m = 5200308914369308]; simp)
  have o12: "mask255 (Fin 0) = 0"
    using mask255_int[of 0] by simp
  have o13: "fmul (Fin 0) (Fin 0) = Fin 0"
    by (simp add: fadd_def fsub_def fmul_def fdiv_def fround_zero mk_zero_def)
  have o14: "fsub (Fin (1 / 2)) (Fin 0) = Fin (1 / 2)"
    by (simp add: fadd_def fsub_def fmul_def fdiv_def)
      (rule fround_near[where k = 53 and m = 4503599627370496]; simp)
  have o15: "flt (Fin (1 / 2)) (Fin 0) = False"
    by (simp add: flt_def fgt_def)
  have o16: "fmul (Fin (1 / 2)) (Fin (1 / 2)) = Fin (1 / 4)"
    by (simp add: fadd_def fsub_def fmul_def fdiv_def)
      (rule fround_near[where k = 54 and m = 4503599627370496]; simp)
  have o17: "fmul (Fin (1 / 4)) (Fin (1 / 4)) = Fin (1 / 16)"
    by (simp add: fadd_def fsub_def fmul_def fdiv_def)
      (rule fround_near[where k = 56 and m = 4503599627370496]; simp)
  have o18: "fmul (Fin (951722585092921 / 4503599627370496))
        (Fin (951722585092921 / 4503599627370496)) =
      Fin (6435924710330825 / 144115188075855872)"
    by (simp add: fadd_def fsub_def fmul_def fdiv_def)
      (rule fround_near[where k = 57 and m = 6435924710330825]; simp)
  have o19: "fsub (Fin (1 / 2)) (Fin (6435924710330825 / 144115188075855872)) =
      Fin (8202708665949639 / 18014398509481984)"
    by (simp add: fadd_def fsub_def fmul_def fdiv_def)
      (rule fround_near[where k = 54 and m = 8202708665949639]; simp)
  have o20: "fmul (Fin (- (3551877042277575 / 4503599627370496)))
        (Fin (- (3551877042277575 / 4503599627370496))) =
      Fin (5602554208764985 / 9007199254740992)"
    by (simp add: fadd_def fsub_def fmul_def fdiv_def)
      (rule fround_near[where k = 53 and m = 5602554208764985]; simp)
  have o21: "fsub (Fin (8202708665949639 / 18014398509481984))
        (Fin (5602554208764985 / 9007199254740992)) =
      Fin (- (3002399751580331 / 18014398509481984))"
    by (simp add: fadd_def fsub_def fmul_def fdiv_def)
      (rule fround_near[where k = 55 and m = 6004799503160662]; simp)
  have o22: "flt (Fin (- (3002399751580331 / 18014398509481984))) (Fin 0) = True"
    by (simp add: flt_def fgt_def)
  have o23: "fmul (Fin (- (1300077228592327 / 2251799813685248)))
        (Fin (- (1300077228592327 / 2251799813685248))) =
      Fin (6004799503160661 / 18014398509481984)"
    by (simp add: fadd_def fsub_def fmul_def fdiv_def)
      (rule fround_near[where k = 54 and m = 6004799503160661]; simp)
  have o24: "fsub (Fin (1 / 2)) (Fin (6004799503160661 / 18014398509481984)) =
      Fin (3002399751580331 / 18014398509481984)"
    by (simp add: fadd_def fsub_def fmul_def fdiv_def)
      (rule fround_near[where k = 55 and m = 6004799503160662]; simp)
  have o25: "fsub (Fin (3002399751580331 / 18014398509481984))
        (Fin (6004799503160661 / 18014398509481984)) =
      Fin (- (1501199875790165 / 9007199254740992))"
    by (simp add: fadd_def fsub_def fmul_def fdiv_def)
      (rule fround_near[where k = 55 and m = 6004799503160660]; simp)
  have o26: "flt (Fin (- (1501199875790165 / 9007199254740992))) (Fin 0) = True"
    by (simp add: flt_def fgt_def)
  have o27: "fmul (Fin 70) (Fin 0) = Fin 0"
    by (simp add: fadd_def fsub_def fmul_def fdiv_def fround_zero mk_zero_def)
  show ?thesis
    unfolding noise_def
    by (simp only: Let_def F2_G2_value o1 o2 o3 o4 o5 o6 o7 o8 o9 o10 o11 o12 o13 o14 o15 o16 o17 o18 o19 o20 
        o21 o22 o23 o24 o25 o26 o27
        corner_origin if_True if_False case_prod_conv of_int_0 of_int_1)
qed

lemma noise_NaN: "noise T NaN y = NaN"
proof -
  have a: "fadd NaN v = NaN" "fmul NaN v = NaN" "fsub NaN v = NaN" "fsub v NaN = NaN"
    "fmul v NaN = NaN" "fadd v NaN = NaN" for v
    by (cases v; simp add: fadd_def fmul_def fsub_def)+
  have b: "\<not> flt NaN v" "\<not> fgt NaN v" for v by (simp_all add: flt_def fgt_def)
  show ?thesis
    unfolding noise_def
    by (simp only: Let_def a b ffloor.simps if_False case_prod_conv)
qed

text \<open>
  After \<open>seed(1337)\<close>: at the origin with amplitude \<open>- 1\<close> the product is the
  negative zero and \<open>fbm\<close> returns the positive zero; with \<open>x\<close> NaN both are NaN,
  which \<open>==\<close> relates to nothing.
\<close>

theorem fbm_one_octave_counterexample:
  "fbm (seed (Fin 1337) initial_tables) (Fin 0) (Fin 0) (Fin 1) (Fin (- 1)) (Fin 1)
     (Fin (1 / 2)) (Fin 2) = Some (Fin 0) \<and>
   fmul (noise (seed (Fin 1337) initial_tables) (fmul (Fin 0) (Fin 1)) (fmul (Fin 0) (Fin 1)))
     (Fin (- 1)) = NZero \<and>
   fbm (seed (Fin 1337) initial_tables) (Fin 0) (Fin 0) (Fin 1) (Fin (- 1)) (Fin 1)
     (Fin (1 / 2)) (Fin 2) \<noteq>
   Some (fmul (noise (seed (Fin 1337) initial_tables) (fmul (Fin 0) (Fin 1))
     (fmul (Fin 0) (Fin 1))) (Fin (- 1))) \<and>
   fbm (seed (Fin 1337) initial_tables) NaN (Fin 0) (Fin 1) (Fin 1) (Fin 1)
     (Fin (1 / 2)) (Fin 2) = Some NaN \<and>
   fmul (noise (seed (Fin 1337) initial_tables) (fmul NaN (Fin 1)) (fmul (Fin 0) (Fin 1)))
     (Fin 1) = NaN \<and>
   \<not> feq NaN NaN"
proof -
  have z: "fmul (Fin 0) (Fin 1) = Fin 0" "fmul (Fin 0) (Fin (- 1)) = NZero"
    "fadd (Fin 0) NZero = Fin 0"
    by (simp_all add: fmul_def fadd_def fround_zero mk_zero_def)
  have n: "fmul NaN (Fin 1) = NaN" "fadd (Fin 0) NaN = NaN"
    by (simp_all add: fmul_def fadd_def)
  show ?thesis
    by (simp add: fbm_single_pass z n noise_origin noise_NaN feq_def)
qed

end
